theory Spec2Isabelle
  imports Main "HOL-Library.Word" "HOL-Library.Multiset"
begin

section \<open>Data model of \<open>src/App.vue\<close>\<close>

text \<open>
  A JavaScript string is a sequence of UTF-16 code units: \<open>s.length\<close>, \<open>s[i]\<close>,
  \<open>s.startsWith(w, i)\<close> and \<open>s.substring\<close> all count code units. A Chinese character of
  the Basic Multilingual Plane is one unit.
\<close>

type_synonym jschar = "16 word"
type_synonym jsstring = "jschar list"

text \<open>An ASCII literal of the source, as code units.\<close>

definition js :: "string \<Rightarrow> jsstring" where
  "js s = map (\<lambda>c. of_nat (of_char c)) s"

text \<open>
  The entry types. \<open>CsvDictionary\<close> entries have the two fields of a \<open>Dictionary\<close> entry and
  \<open>chapter\<close>, \<open>category\<close> besides (\<open>chapter\<close> is a keyword here, so both are prefixed).
\<close>

record dict_entry =
  pinyin :: jsstring
  meaning :: jsstring

record csv_entry = dict_entry +
  entry_chapter :: jsstring
  entry_category :: jsstring

text \<open>
  \<open>Record<string, ...>\<close>: a plain object used as a dictionary. \<open>Object.keys\<close> and
  \<open>for ... in\<close> enumerate its own keys in one fixed order, which the segmenter depends on,
  so a dictionary is the association list of its own properties in enumeration order. A
  key occurs once in an object.
\<close>

type_synonym Dictionary = "(jsstring \<times> dict_entry list) list"
type_synonym CsvDictionary = "(jsstring \<times> csv_entry list) list"

definition keys :: "(jsstring \<times> 'v) list \<Rightarrow> jsstring list" where
  "keys d = map fst d"

text \<open>
  A property read \<open>d[w]\<close> also finds what a plain object inherits from
  \<open>Object.prototype\<close>: eleven functions, listed with their \<open>length\<close> property, and the
  accessor \<open>__proto__\<close>, which answers with \<open>Object.prototype\<close> itself. None of them is
  enumerable, so \<open>Object.keys\<close> and \<open>for ... in\<close> do not see them.
\<close>

definition prototype_function_lengths :: "(jsstring \<times> nat) list" where
  "prototype_function_lengths =
     [(js ''constructor'', 1), (js ''__defineGetter__'', 2), (js ''__defineSetter__'', 2),
      (js ''hasOwnProperty'', 1), (js ''__lookupGetter__'', 1), (js ''__lookupSetter__'', 1),
      (js ''isPrototypeOf'', 1), (js ''propertyIsEnumerable'', 1), (js ''toString'', 0),
      (js ''valueOf'', 0), (js ''toLocaleString'', 0)]"

definition object_prototype_names :: "jsstring list" where
  "object_prototype_names = map fst prototype_function_lengths @ [js ''__proto__'']"

text \<open>
  The value of \<open>d[w]\<close>: the own property when there is one, else the inherited member of
  that name, else \<open>undefined\<close>.
\<close>

datatype 'v property = Own 'v | Inherited jsstring | Missing

definition get_property :: "(jsstring \<times> 'v) list \<Rightarrow> jsstring \<Rightarrow> 'v property" where
  "get_property d w =
     (case map_of d w of
        Some v \<Rightarrow> Own v
      | None \<Rightarrow> if w \<in> set object_prototype_names then Inherited w else Missing)"

text \<open>
  The truthiness test \<open>if (d[w])\<close>: an array, even an empty one, a function and an object
  are truthy; only \<open>undefined\<close> is not.
\<close>

definition has_key :: "(jsstring \<times> 'v) list \<Rightarrow> jsstring \<Rightarrow> bool" where
  "has_key d w = (get_property d w \<noteq> Missing)"

text \<open>
  \<open>ProcessedSegment\<close>. The field \<open>data\<close> is declared as an optional array of entries; the
  source stores five shapes of value in it, which the datatype keeps apart:
  nothing (the newline segment), the bare object \<open>{pinyin: c}\<close> of the Latin branch,
  an array of \<open>CsvDictionary\<close> entries, an array of \<open>Dictionary\<close> entries, and the
  inherited member that a dictionary read returns for a name of \<open>Object.prototype\<close>.
\<close>

datatype seg_kind = Found | NotFound | Unknown

datatype seg_data =
    Undefined
  | PinyinObject jsstring
  | CsvEntries "csv_entry list"
  | DictEntries "dict_entry list"
  | PrototypeMember jsstring

record ProcessedSegment =
  seg_text :: jsstring
  seg_type :: seg_kind
  seg_data :: seg_data

record UnknownWord =
  uw_index :: nat
  uw_word :: jsstring
  uw_pinyin :: jsstring
  uw_meaning :: jsstring

text \<open>
  The reactive state \<open>processScript\<close> reads and writes, and the console it warns on.
\<close>

record app_state =
  scriptInput :: jsstring
  ccCedict :: Dictionary
  csvDictionary :: CsvDictionary
  processedOutput :: "ProcessedSegment list"
  unknownWords :: "UnknownWord list"
  console_warn :: "jsstring list"

section \<open>String and character operations\<close>

text \<open>\<open>text.startsWith(word, i)\<close>\<close>

definition startsWith :: "jsstring \<Rightarrow> jsstring \<Rightarrow> nat \<Rightarrow> bool" where
  "startsWith text w i = (take (length w) (drop i text) = w)"

text \<open>\<open>c == '\n'\<close>\<close>

definition is_newline :: "jschar \<Rightarrow> bool" where
  "is_newline c = (c = 0x0A)"

text \<open>
  \<open>c.match(/[a-z]/i)\<close>: without the \<open>u\<close> flag, case-insensitive matching of one code unit
  against \<open>[a-z]\<close> accepts the 52 ASCII letters only.
\<close>

definition is_latin :: "jschar \<Rightarrow> bool" where
  "is_latin c = ((0x41 \<le> c \<and> c \<le> 0x5A) \<or> (0x61 \<le> c \<and> c \<le> 0x7A))"

text \<open>
  \<open>!c.trim()\<close>: \<open>trim\<close> removes white space and line terminators, so a one-unit string
  trims to the empty (falsy) string exactly when the unit is one of them.
\<close>

definition trims_to_empty :: "jschar \<Rightarrow> bool" where
  "trims_to_empty c =
     (c \<in> set [0x09, 0x0A, 0x0B, 0x0C, 0x0D, 0x20, 0xA0, 0x1680, 0x2028, 0x2029,
                0x202F, 0x205F, 0x3000, 0xFEFF]
      \<or> (0x2000 \<le> c \<and> c \<le> 0x200A))"

section \<open>\<open>processScript\<close>\<close>

text \<open>
  \<open>Object.keys(ccCedict.value).sort((a, b) => b.length - a.length)\<close>: the keys by
  descending length; \<open>Array.prototype.sort\<close> is stable, as is \<open>sort_key\<close>.
\<close>

definition sort_longest_first :: "jsstring list \<Rightarrow> jsstring list" where
  "sort_longest_first ws = sort_key (\<lambda>w. - int (length w)) ws"

text \<open>
  \<open>GetSegmentsInCsv(word)\<close>: the word itself when it is a key of the CSV dictionary,
  else the first split \<open>word.substring(0, i)\<close>, \<open>word.substring(i)\<close>, for \<open>i\<close> from
  \<open>1\<close> to \<open>word.length - 1\<close>, whose halves both are keys, else \<open>null\<close>.
\<close>

definition GetSegmentsInCsv :: "CsvDictionary \<Rightarrow> jsstring \<Rightarrow> jsstring list option" where
  "GetSegmentsInCsv csv word =
     (if has_key csv word then Some [word]
      else case find (\<lambda>i. has_key csv (take i word) \<and> has_key csv (drop i word))
                     [1..<length word] of
             Some i \<Rightarrow> Some [take i word, drop i word]
           | None \<Rightarrow> None)"

text \<open>\<open>data: csvDictionary.value[segment]\<close> and \<open>data: ccCedict.value[word]\<close>\<close>

definition csv_data :: "CsvDictionary \<Rightarrow> jsstring \<Rightarrow> seg_data" where
  "csv_data csv w =
     (case get_property csv w of
        Own es \<Rightarrow> CsvEntries es
      | Inherited n \<Rightarrow> PrototypeMember n
      | Missing \<Rightarrow> Undefined)"

definition dict_data :: "Dictionary \<Rightarrow> jsstring \<Rightarrow> seg_data" where
  "dict_data d w =
     (case get_property d w of
        Own es \<Rightarrow> DictEntries es
      | Inherited n \<Rightarrow> PrototypeMember n
      | Missing \<Rightarrow> Undefined)"

text \<open>\<open>unknownSet.add(word)\<close>: a \<open>Set\<close> keeps its elements in insertion order.\<close>

definition set_add :: "jsstring list \<Rightarrow> jsstring \<Rightarrow> jsstring list" where
  "set_add s w = (if w \<in> set s then s else s @ [w])"

text \<open>The variables of the \<open>while\<close> loop: \<open>i\<close>, \<open>results\<close> and \<open>unknownSet\<close>.\<close>

record loop_state =
  cursor :: nat
  results :: "ProcessedSegment list"
  unknownSet :: "jsstring list"

text \<open>
  One iteration of \<open>while (i < scriptText.length)\<close>, entered with \<open>i\<close> in range. Each
  \<open>for\<close> loop that breaks at the first key matching at \<open>i\<close> is a \<open>find\<close> over the keys in
  the order the loop visits them.
\<close>

definition loop_body ::
  "jsstring \<Rightarrow> Dictionary \<Rightarrow> CsvDictionary \<Rightarrow> jsstring list \<Rightarrow> loop_state \<Rightarrow> loop_state" where
  "loop_body scriptText cedict csv cedictWords s =
     (let i = cursor s; c = scriptText ! i in
      if is_newline c then
        s\<lparr>results := results s @ [\<lparr>seg_text = [0x0A], seg_type = Unknown, seg_data = Undefined\<rparr>],
          cursor := i + 1\<rparr>
      else if is_latin c then
        s\<lparr>results := results s @ [\<lparr>seg_text = [c], seg_type = Found, seg_data = PinyinObject [c]\<rparr>],
          cursor := i + 1\<rparr>
      else if trims_to_empty c then s\<lparr>cursor := i + 1\<rparr>
      else
        case find (\<lambda>word. startsWith scriptText word i) cedictWords of
          Some word \<Rightarrow>
            (case GetSegmentsInCsv csv word of
               Some validSegments \<Rightarrow>
                 s\<lparr>results := results s @
                      map (\<lambda>segment. \<lparr>seg_text = segment, seg_type = Found,
                                       seg_data = csv_data csv segment\<rparr>) validSegments,
                   cursor := i + length word\<rparr>
             | None \<Rightarrow>
                 s\<lparr>results := results s @
                      [\<lparr>seg_text = word, seg_type = NotFound, seg_data = dict_data cedict word\<rparr>],
                   unknownSet := set_add (unknownSet s) word,
                   cursor := i + length word\<rparr>)
        | None \<Rightarrow>
            (case find (\<lambda>word. startsWith scriptText word i) (keys csv) of
               Some word \<Rightarrow>
                 s\<lparr>results := results s @
                      [\<lparr>seg_text = word, seg_type = Found, seg_data = csv_data csv word\<rparr>],
                   cursor := i + length word\<rparr>
             | None \<Rightarrow> s\<lparr>cursor := i + 1\<rparr>))"

text \<open>
  The \<open>while\<close> loop. A key that is the empty string matches everywhere and leaves \<open>i\<close>
  where it is, so the loop need not end: not returning is \<open>None\<close>.
\<close>

partial_function (option) while_loop ::
  "jsstring \<Rightarrow> Dictionary \<Rightarrow> CsvDictionary \<Rightarrow> jsstring list \<Rightarrow> loop_state \<Rightarrow> loop_state option" where
  "while_loop scriptText cedict csv cedictWords s =
     (if cursor s < length scriptText
      then while_loop scriptText cedict csv cedictWords
             (loop_body scriptText cedict csv cedictWords s)
      else Some s)"

declare while_loop.simps [code]

text \<open>
  \<open>ccCedict.value[word]?.[0]?.pinyin || ""\<close>, and the same for \<open>meaning\<close>: the field of the
  first entry, the empty string when there is none. An inherited member has no property
  \<open>0\<close>, so it gives the empty string too.
\<close>

definition first_pinyin :: "Dictionary \<Rightarrow> jsstring \<Rightarrow> jsstring" where
  "first_pinyin d w = (case get_property d w of Own (e # _) \<Rightarrow> pinyin e | _ \<Rightarrow> [])"

definition first_meaning :: "Dictionary \<Rightarrow> jsstring \<Rightarrow> jsstring" where
  "first_meaning d w = (case get_property d w of Own (e # _) \<Rightarrow> meaning e | _ \<Rightarrow> [])"

text \<open>\<open>Array.from(unknownSet).map((word, index) => ...)\<close>\<close>

definition make_unknownWords :: "Dictionary \<Rightarrow> jsstring list \<Rightarrow> UnknownWord list" where
  "make_unknownWords d ws =
     map (\<lambda>(index, word). \<lparr>uw_index = index + 1, uw_word = word,
                            uw_pinyin = first_pinyin d word,
                            uw_meaning = first_meaning d word\<rparr>)
         (enumerate 0 ws)"

definition error_segment :: ProcessedSegment where
  "error_segment = \<lparr>seg_text = js ''Error: Dictionary not loaded or empty.'',
                    seg_type = NotFound, seg_data = Undefined\<rparr>"

text \<open>
  \<open>processScript\<close>, as a function of the state. With no key in \<open>ccCedict\<close> it warns,
  pushes the error segment onto the output already there and returns; otherwise it runs
  the loop and replaces \<open>processedOutput\<close> and \<open>unknownWords\<close>.
\<close>

definition processScript :: "app_state \<Rightarrow> app_state option" where
  "processScript st =
     (if length (keys (ccCedict st)) = 0 then
        Some (st\<lparr>console_warn := console_warn st @ [js ''CC-CEDICT is empty. Cannot process script.''],
                 processedOutput := processedOutput st @ [error_segment]\<rparr>)
      else
        let scriptText = scriptInput st;
            cedictWords = sort_longest_first (keys (ccCedict st))
        in case while_loop scriptText (ccCedict st) (csvDictionary st) cedictWords
                  \<lparr>cursor = 0, results = [], unknownSet = []\<rparr> of
             None \<Rightarrow> None
           | Some s \<Rightarrow>
               Some (st\<lparr>processedOutput := results s,
                        unknownWords := make_unknownWords (ccCedict st) (unknownSet s)\<rparr>))"

section \<open>Notions used to state the properties\<close>

text \<open>
  A position the loop passes without emitting a segment: the character there is neither a
  newline nor a Latin letter, and it is white space or no key of either dictionary starts
  there.
\<close>

definition skipped_at :: "jsstring \<Rightarrow> jsstring list \<Rightarrow> nat \<Rightarrow> bool" where
  "skipped_at t ks j =
     (t ! j \<noteq> 0x0A \<and> \<not> is_latin (t ! j) \<and>
      (trims_to_empty (t ! j) \<or> (\<forall>w\<in>set ks. \<not> startsWith t w j)))"

text \<open>The text with the characters at the unmarked positions removed.\<close>

definition kept_text :: "jsstring \<Rightarrow> bool list \<Rightarrow> jsstring" where
  "kept_text t kept = map fst (filter snd (zip t kept))"

text \<open>
  The loop invariant behind the reconstruction property: the segments emitted so far
  spell the text before the cursor, skipped positions left out.
\<close>

definition reconstructs :: "jsstring \<Rightarrow> jsstring list \<Rightarrow> loop_state \<Rightarrow> bool" where
  "reconstructs t ks s =
     (cursor s \<le> length t \<and>
      (\<exists>kept. length kept = cursor s \<and>
              concat (map seg_text (results s)) = kept_text t kept \<and>
              (\<forall>j<cursor s. \<not> kept ! j \<longrightarrow> skipped_at t ks j)))"

text \<open>The segments pushed by the Latin branch and by the newline branch.\<close>

definition latin_segment :: "jschar \<Rightarrow> ProcessedSegment" where
  "latin_segment c = \<lparr>seg_text = [c], seg_type = Found, seg_data = PinyinObject [c]\<rparr>"

definition newline_segment :: ProcessedSegment where
  "newline_segment = \<lparr>seg_text = [0x0A], seg_type = Unknown, seg_data = Undefined\<rparr>"

text \<open>
  The loop invariant behind the newline property: the \<open>unknown\<close> segments emitted so far
  are one newline segment for each newline before the cursor.
\<close>

definition newlines_marked :: "jsstring \<Rightarrow> loop_state \<Rightarrow> bool" where
  "newlines_marked t s =
     (filter (\<lambda>x. seg_type x = Unknown) (results s) =
      replicate (length (filter (\<lambda>c. c = 0x0A) (take (cursor s) t))) newline_segment)"

text \<open>
  Deduplication that keeps the first occurrence, written as the specification words it,
  and the texts of the \<open>not-found\<close> segments of an output.
\<close>

fun dedup_first :: "'a list \<Rightarrow> 'a list" where
  "dedup_first [] = []"
| "dedup_first (x # xs) = x # dedup_first (filter (\<lambda>y. y \<noteq> x) xs)"

definition unmatched_texts :: "ProcessedSegment list \<Rightarrow> jsstring list" where
  "unmatched_texts segs = map seg_text (filter (\<lambda>x. seg_type x = NotFound) segs)"

text \<open>The loop invariant behind the unknown-word report.\<close>

definition collects_unmatched :: "loop_state \<Rightarrow> bool" where
  "collects_unmatched s = (unknownSet s = dedup_first (unmatched_texts (results s)))"

text \<open>
  \<open>segment.data?.length\<close>, which \<open>showDetails\<close> and the annotated output test before they
  read \<open>segment.data[0]\<close>: the length of an array, the \<open>length\<close> property of a function,
  \<open>undefined\<close> for a missing \<open>data\<close> and for an object that is neither.
\<close>

definition data_length :: "seg_data \<Rightarrow> nat option" where
  "data_length d =
     (case d of
        Undefined \<Rightarrow> None
      | PinyinObject p \<Rightarrow> None
      | CsvEntries es \<Rightarrow> Some (length es)
      | DictEntries es \<Rightarrow> Some (length es)
      | PrototypeMember n \<Rightarrow> map_of prototype_function_lengths n)"

text \<open>
  What the data of a \<open>found\<close> segment is: that of the Latin branch, or the entries of the
  segment text in the CSV dictionary, or the inherited member when the text is no key of
  the dictionary but a name of \<open>Object.prototype\<close>.
\<close>

definition found_data_ok :: "CsvDictionary \<Rightarrow> ProcessedSegment \<Rightarrow> bool" where
  "found_data_ok csv seg =
     (seg_type seg = Found \<longrightarrow>
        (\<exists>c. is_latin c \<and> seg = latin_segment c) \<or>
        (\<exists>es. map_of csv (seg_text seg) = Some es \<and> seg_data seg = CsvEntries es) \<or>
        (map_of csv (seg_text seg) = None \<and> seg_text seg \<in> set object_prototype_names \<and>
         seg_data seg = PrototypeMember (seg_text seg)))"

text \<open>
  A state the loop cannot leave: a Lexicon match is attempted at the cursor and the key
  it finds is the empty string.
\<close>

definition stuck :: "jsstring \<Rightarrow> jsstring list \<Rightarrow> loop_state \<Rightarrow> bool" where
  "stuck t ws s =
     (cursor s < length t \<and> t ! cursor s \<noteq> 0x0A \<and> \<not> is_latin (t ! cursor s) \<and>
      \<not> trims_to_empty (t ! cursor s) \<and>
      find (\<lambda>w. startsWith t w (cursor s)) ws = Some [])"

section \<open>Example inputs\<close>

text \<open>The characters of the examples: U+4F60, U+597D, U+5417.\<close>

abbreviation ni :: jschar where "ni \<equiv> 0x4F60"
abbreviation hao :: jschar where "hao \<equiv> 0x597D"
abbreviation ma :: jschar where "ma \<equiv> 0x5417"

definition dict_entry_of :: "string \<Rightarrow> string \<Rightarrow> dict_entry" where
  "dict_entry_of p m = \<lparr>pinyin = js p, meaning = js m\<rparr>"

definition csv_entry_of :: "string \<Rightarrow> string \<Rightarrow> string \<Rightarrow> string \<Rightarrow> csv_entry" where
  "csv_entry_of ch p cat m =
     \<lparr>pinyin = js p, meaning = js m, entry_chapter = js ch, entry_category = js cat\<rparr>"

text \<open>
  The state when the page has loaded: \<open>processedOutput\<close> and \<open>unknownWords\<close> start as
  empty arrays.
\<close>

definition loaded_state :: "jsstring \<Rightarrow> Dictionary \<Rightarrow> CsvDictionary \<Rightarrow> app_state" where
  "loaded_state t d csv =
     \<lparr>scriptInput = t, ccCedict = d, csvDictionary = csv,
      processedOutput = [], unknownWords = [], console_warn = []\<rparr>"

definition cedict_ni_hao :: Dictionary where
  "cedict_ni_hao =
     [([ni], [dict_entry_of ''ni3'' ''you'']),
      ([hao], [dict_entry_of ''hao3'' ''good'']),
      ([ni, hao], [dict_entry_of ''ni3 hao3'' ''hello''])]"

definition cedict_ni_hao_ma :: Dictionary where
  "cedict_ni_hao_ma = [([ni, hao, ma], [dict_entry_of ''ni3 hao3 ma5'' ''how are you?''])]"

definition csv_nihao_ma :: CsvDictionary where
  "csv_nihao_ma =
     [([ni, hao], [csv_entry_of ''1'' ''ni3 hao3'' ''phrase'' ''hello'']),
      ([ma], [csv_entry_of ''1'' ''ma5'' ''particle'' ''question particle''])]"

definition csv_ni_hao :: CsvDictionary where
  "csv_ni_hao =
     [([ni], [csv_entry_of ''1'' ''ni3'' ''pronoun'' ''you'']),
      ([hao], [csv_entry_of ''1'' ''hao3'' ''adjective'' ''good''])]"

text \<open>
  A Lexicon word that ends in a name of \<open>Object.prototype\<close>: U+4F60 followed by
  \<open>valueOf\<close>, with a CSV dictionary that has U+4F60, U+4F60 \<open>v\<close> and \<open>alueOf\<close>.
\<close>

definition cedict_ni_valueOf :: Dictionary where
  "cedict_ni_valueOf = [(ni # js ''valueOf'', [dict_entry_of ''ni3 valueOf'' ''your value''])]"

definition csv_ni_valueOf :: CsvDictionary where
  "csv_ni_valueOf =
     [([ni], [csv_entry_of ''1'' ''ni3'' ''pronoun'' ''you'']),
      (ni # js ''v'', [csv_entry_of ''2'' ''ni3 v'' ''phrase'' ''your v'']),
      (js ''alueOf'', [csv_entry_of ''2'' ''alueOf'' ''phrase'' ''alue of''])]"

text \<open>A Lexicon with a key that ends in a newline: U+4F60, newline.\<close>

definition cedict_ni_newline :: Dictionary where
  "cedict_ni_newline =
     [([ni, 0x0A], [dict_entry_of ''ni3'' ''you'']),
      ([hao], [dict_entry_of ''hao3'' ''good''])]"

text \<open>A word that starts with a Latin letter: T, U+6064 (T-shirt).\<close>

definition cedict_tshirt :: Dictionary where
  "cedict_tshirt = [([0x54, 0x6064], [dict_entry_of ''T xu4'' ''T-shirt''])]"

definition csv_tshirt :: CsvDictionary where
  "csv_tshirt = [([0x54, 0x6064], [csv_entry_of ''3'' ''T xu4'' ''noun'' ''T-shirt''])]"

section \<open>Facts about the string operations and the loop\<close>

lemma startsWith_bound:
  "startsWith t w i \<Longrightarrow> i \<le> length t \<Longrightarrow> i + length w \<le> length t"
proof -
  assume a: "startsWith t w i" and b: "i \<le> length t"
  from a have "length (take (length w) (drop i t)) = length w"
    by (simp add: startsWith_def)
  then show ?thesis using b by simp
qed

lemma startsWith_slice:
  "startsWith t w i \<Longrightarrow> take (length w) (drop i t) = w"
  by (simp add: startsWith_def)

lemma while_loop_invariant:
  assumes run: "while_loop t d c ws s = Some s'"
    and init: "I s"
    and step: "\<And>s. I s \<Longrightarrow> cursor s < length t \<Longrightarrow> I (loop_body t d c ws s)"
  shows "I s' \<and> length t \<le> cursor s'"
proof -
  have "(\<forall>s. I s \<longrightarrow> cursor s < length t \<longrightarrow> I (loop_body t d c ws s)) \<longrightarrow> I s
          \<longrightarrow> I s' \<and> length t \<le> cursor s'"
  proof (induction t d c ws s s' rule: while_loop.raw_induct)
    case (1 loop t d c ws s s')
    show ?case
    proof (intro impI)
      assume pres: "\<forall>s. I s \<longrightarrow> cursor s < length t \<longrightarrow> I (loop_body t d c ws s)"
        and here: "I s"
      show "I s' \<and> length t \<le> cursor s'"
      proof (cases "cursor s < length t")
        case True
        with 1(2) have next_run: "loop t d c ws (loop_body t d c ws s) = Some s'"
          by simp
        have after: "I (loop_body t d c ws s)"
          by (rule mp[OF mp[OF spec[OF pres] here] True])
        have ih: "(\<forall>s. I s \<longrightarrow> cursor s < length t \<longrightarrow> I (loop_body t d c ws s))
                    \<longrightarrow> I (loop_body t d c ws s) \<longrightarrow> I s' \<and> length t \<le> cursor s'"
          by (rule 1(1)[OF next_run])
        show ?thesis
          by (rule mp[OF mp[OF ih pres] after])
      next
        case False
        with 1(2) have "s' = s" by simp
        with here False show ?thesis by simp
      qed
    qed
  qed (fact run)
  moreover have "\<forall>s. I s \<longrightarrow> cursor s < length t \<longrightarrow> I (loop_body t d c ws s)"
    using step by simp
  ultimately show ?thesis using init by (rule_tac mp[OF mp])
qed

lemma while_loop_terminates:
  assumes adv: "\<And>s. cursor s < length t \<Longrightarrow> cursor s < cursor (loop_body t d c ws s)"
  shows "\<exists>s'. while_loop t d c ws s = Some s'"
proof (induction "length t - cursor s" arbitrary: s rule: less_induct)
  case less
  show ?case
  proof (cases "cursor s < length t")
    case True
    let ?s = "loop_body t d c ws s"
    from adv[OF True] True have "length t - cursor ?s < length t - cursor s" by arith
    from less[OF this] obtain s' where "while_loop t d c ws ?s = Some s'" by blast
    with True show ?thesis by (subst while_loop.simps) simp
  next
    case False
    then show ?thesis by (subst while_loop.simps) simp
  qed
qed

text \<open>Own keys, inherited names and the truthiness test.\<close>

lemma get_property_Own: "map_of d w = Some v \<Longrightarrow> get_property d w = Own v"
  by (simp add: get_property_def)

lemma has_key_own: "map_of d w = Some v \<Longrightarrow> has_key d w"
  by (simp add: has_key_def get_property_def)

lemma own_key_in_keys: "map_of d w = Some v \<Longrightarrow> w \<in> set (keys d)"
  by (auto simp: keys_def dest: map_of_SomeD intro: rev_image_eqI)

lemma key_is_own: "w \<in> set (keys d) \<Longrightarrow> \<exists>v. map_of d w = Some v"
  by (cases "map_of d w") (simp_all add: keys_def map_of_eq_None_iff)

lemma has_key_iff: "has_key d w \<longleftrightarrow> w \<in> set (keys d) \<or> w \<in> set object_prototype_names"
proof (cases "map_of d w")
  case None
  then have "w \<notin> set (keys d)" by (simp add: keys_def map_of_eq_None_iff)
  with None show ?thesis by (simp add: has_key_def get_property_def)
next
  case (Some v)
  with own_key_in_keys[OF Some] show ?thesis by (simp add: has_key_def get_property_def)
qed

lemma prototype_name_head:
  "w \<in> set object_prototype_names \<Longrightarrow> w \<noteq> [] \<and> (is_latin (hd w) \<or> hd w = 0x5F)"
  by (auto simp: object_prototype_names_def prototype_function_lengths_def js_def is_latin_def)

lemma get_property_plain:
  assumes "\<not> is_latin c" "c \<noteq> 0x5F"
  shows "get_property d (c # cs) = (case map_of d (c # cs) of Some v \<Rightarrow> Own v | None \<Rightarrow> Missing)"
proof -
  from assms prototype_name_head[of "c # cs"] have "c # cs \<notin> set object_prototype_names"
    by auto
  then show ?thesis by (simp add: get_property_def)
qed

lemma first_pinyin_map_of:
  "first_pinyin d w = (case map_of d w of Some (e # es) \<Rightarrow> pinyin e | _ \<Rightarrow> [])"
  by (simp add: first_pinyin_def get_property_def split: option.splits list.splits)

lemma first_meaning_map_of:
  "first_meaning d w = (case map_of d w of Some (e # es) \<Rightarrow> meaning e | _ \<Rightarrow> [])"
  by (simp add: first_meaning_def get_property_def split: option.splits list.splits)

lemma GetSegmentsInCsv_direct:
  "has_key csv word \<Longrightarrow> GetSegmentsInCsv csv word = Some [word]"
  by (simp add: GetSegmentsInCsv_def)

lemma GetSegmentsInCsv_Some:
  assumes "GetSegmentsInCsv csv word = Some segs"
  shows "(has_key csv word \<and> segs = [word]) \<or>
         (\<not> has_key csv word \<and>
          (\<exists>k. 0 < k \<and> k < length word \<and> segs = [take k word, drop k word] \<and>
               has_key csv (take k word) \<and> has_key csv (drop k word) \<and>
               (\<forall>j. 0 < j \<and> j < k \<longrightarrow>
                    \<not> (has_key csv (take j word) \<and> has_key csv (drop j word)))))"
proof (cases "has_key csv word")
  case True
  with assms show ?thesis by (simp add: GetSegmentsInCsv_def)
next
  case False
  let ?P = "\<lambda>i. has_key csv (take i word) \<and> has_key csv (drop i word)"
  from assms False obtain k where f: "find ?P [1..<length word] = Some k"
    and segs: "segs = [take k word, drop k word]"
    by (auto simp: GetSegmentsInCsv_def split: option.splits)
  from f obtain n where n: "n < length [1..<length word]" "?P ([1..<length word] ! n)"
    "k = [1..<length word] ! n" "\<forall>j<n. \<not> ?P ([1..<length word] ! j)"
    unfolding find_Some_iff by blast
  from n(1) have nlt: "n < length word - 1" by simp
  with n(3) have k: "k = Suc n" by simp
  have first: "\<not> ?P j" if "0 < j" "j < k" for j
  proof -
    from that k obtain m where m: "j = Suc m" "m < n" by (cases j) auto
    with n(4) have "\<not> ?P ([1..<length word] ! m)" by blast
    moreover from m nlt have "[1..<length word] ! m = j" by simp
    ultimately show ?thesis by simp
  qed
  from n(2) n(3) have here: "?P k" by simp
  from k nlt have range: "0 < k" "k < length word" by simp_all
  have "\<exists>k. 0 < k \<and> k < length word \<and> segs = [take k word, drop k word] \<and>
               has_key csv (take k word) \<and> has_key csv (drop k word) \<and>
               (\<forall>j. 0 < j \<and> j < k \<longrightarrow>
                    \<not> (has_key csv (take j word) \<and> has_key csv (drop j word)))"
    using range segs here first by (intro exI[of _ k]) blast
  with False show ?thesis by blast
qed

lemma GetSegmentsInCsv_None:
  "GetSegmentsInCsv csv word = None \<longleftrightarrow>
     \<not> has_key csv word \<and>
     (\<forall>k. 0 < k \<and> k < length word \<longrightarrow>
          \<not> (has_key csv (take k word) \<and> has_key csv (drop k word)))"
proof -
  let ?P = "\<lambda>i. has_key csv (take i word) \<and> has_key csv (drop i word)"
  have "GetSegmentsInCsv csv word = None \<longleftrightarrow>
          \<not> has_key csv word \<and> find ?P [1..<length word] = None"
    by (simp add: GetSegmentsInCsv_def split: option.splits)
  also have "find ?P [1..<length word] = None \<longleftrightarrow>
               (\<forall>k. 0 < k \<and> k < length word \<longrightarrow> \<not> ?P k)"
    by (auto simp: find_None_iff Suc_le_eq)
  finally show ?thesis .
qed

lemma GetSegmentsInCsv_first_split:
  assumes "\<not> has_key csv word" "0 < k" "k < length word"
    and "has_key csv (take k word)" "has_key csv (drop k word)"
    and "\<forall>j. 0 < j \<and> j < k \<longrightarrow> \<not> (has_key csv (take j word) \<and> has_key csv (drop j word))"
  shows "GetSegmentsInCsv csv word = Some [take k word, drop k word]"
proof (cases "GetSegmentsInCsv csv word")
  case None
  with assms show ?thesis unfolding GetSegmentsInCsv_None by blast
next
  case (Some segs)
  from GetSegmentsInCsv_Some[OF Some] assms(1) obtain k' where k':
    "0 < k'" "k' < length word" "segs = [take k' word, drop k' word]"
    "has_key csv (take k' word)" "has_key csv (drop k' word)"
    "\<forall>j. 0 < j \<and> j < k' \<longrightarrow> \<not> (has_key csv (take j word) \<and> has_key csv (drop j word))"
    by blast
  have "k' = k"
  proof (rule ccontr)
    assume "k' \<noteq> k"
    then consider "k' < k" | "k < k'" by arith
    then show False
    proof cases
      case 1 with assms(6) k'(1,4,5) show False by blast
    next
      case 2 with k'(6) assms(2,4,5) show False by blast
    qed
  qed
  with Some k'(3) show ?thesis by simp
qed

lemma GetSegmentsInCsv_concat:
  "GetSegmentsInCsv csv word = Some segs \<Longrightarrow> concat segs = word"
  by (drule GetSegmentsInCsv_Some) auto

lemma GetSegmentsInCsv_keys:
  "GetSegmentsInCsv csv word = Some segs \<Longrightarrow> x \<in> set segs \<Longrightarrow> has_key csv x"
  by (drule GetSegmentsInCsv_Some) auto

text \<open>The seven ways through one iteration.\<close>

lemma loop_body_cases [consumes 1, case_names newline latin blank segments notfound csvdirect skip]:
  assumes "cursor s < length t"
  obtains
    "t ! cursor s = 0x0A"
    "loop_body t d csv ws s =
       s\<lparr>results := results s @ [\<lparr>seg_text = [0x0A], seg_type = Unknown, seg_data = Undefined\<rparr>],
         cursor := cursor s + 1\<rparr>"
  | "t ! cursor s \<noteq> 0x0A" "is_latin (t ! cursor s)"
    "loop_body t d csv ws s =
       s\<lparr>results := results s @ [\<lparr>seg_text = [t ! cursor s], seg_type = Found,
                                   seg_data = PinyinObject [t ! cursor s]\<rparr>],
         cursor := cursor s + 1\<rparr>"
  | "t ! cursor s \<noteq> 0x0A" "\<not> is_latin (t ! cursor s)" "trims_to_empty (t ! cursor s)"
    "loop_body t d csv ws s = s\<lparr>cursor := cursor s + 1\<rparr>"
  | word segs where
    "t ! cursor s \<noteq> 0x0A" "\<not> is_latin (t ! cursor s)" "\<not> trims_to_empty (t ! cursor s)"
    "find (\<lambda>w. startsWith t w (cursor s)) ws = Some word"
    "GetSegmentsInCsv csv word = Some segs"
    "loop_body t d csv ws s =
       s\<lparr>results := results s @
            map (\<lambda>segment. \<lparr>seg_text = segment, seg_type = Found,
                             seg_data = csv_data csv segment\<rparr>) segs,
         cursor := cursor s + length word\<rparr>"
  | word where
    "t ! cursor s \<noteq> 0x0A" "\<not> is_latin (t ! cursor s)" "\<not> trims_to_empty (t ! cursor s)"
    "find (\<lambda>w. startsWith t w (cursor s)) ws = Some word"
    "GetSegmentsInCsv csv word = None"
    "loop_body t d csv ws s =
       s\<lparr>results := results s @
            [\<lparr>seg_text = word, seg_type = NotFound, seg_data = dict_data d word\<rparr>],
         unknownSet := set_add (unknownSet s) word,
         cursor := cursor s + length word\<rparr>"
  | word where
    "t ! cursor s \<noteq> 0x0A" "\<not> is_latin (t ! cursor s)" "\<not> trims_to_empty (t ! cursor s)"
    "find (\<lambda>w. startsWith t w (cursor s)) ws = None"
    "find (\<lambda>w. startsWith t w (cursor s)) (keys csv) = Some word"
    "loop_body t d csv ws s =
       s\<lparr>results := results s @
            [\<lparr>seg_text = word, seg_type = Found, seg_data = csv_data csv word\<rparr>],
         cursor := cursor s + length word\<rparr>"
  | "t ! cursor s \<noteq> 0x0A" "\<not> is_latin (t ! cursor s)" "\<not> trims_to_empty (t ! cursor s)"
    "find (\<lambda>w. startsWith t w (cursor s)) ws = None"
    "find (\<lambda>w. startsWith t w (cursor s)) (keys csv) = None"
    "loop_body t d csv ws s = s\<lparr>cursor := cursor s + 1\<rparr>"
proof (cases "t ! cursor s = 0x0A")
  case True
  then show ?thesis using that(1) by (simp add: loop_body_def is_newline_def Let_def)
next
  case nl: False
  show ?thesis
  proof (cases "is_latin (t ! cursor s)")
    case True
    then show ?thesis using nl that(2) by (simp add: loop_body_def is_newline_def Let_def)
  next
    case lat: False
    show ?thesis
    proof (cases "trims_to_empty (t ! cursor s)")
      case True
      then show ?thesis using nl lat that(3) by (simp add: loop_body_def is_newline_def Let_def)
    next
      case bl: False
      show ?thesis
      proof (cases "find (\<lambda>w. startsWith t w (cursor s)) ws")
        case (Some word)
        show ?thesis
        proof (cases "GetSegmentsInCsv csv word")
          case None
          then show ?thesis using nl lat bl Some that(5)[of word]
            by (simp add: loop_body_def is_newline_def Let_def)
        next
          case (Some segs)
          then show ?thesis using nl lat bl \<open>find _ ws = Some word\<close> that(4)[of word segs]
            by (simp add: loop_body_def is_newline_def Let_def)
        qed
      next
        case None
        show ?thesis
        proof (cases "find (\<lambda>w. startsWith t w (cursor s)) (keys csv)")
          case (Some word)
          then show ?thesis using nl lat bl None that(6)[of word]
            by (simp add: loop_body_def is_newline_def Let_def)
        next
          case csvNone: None
          then show ?thesis using nl lat bl None that(7)
            by (simp add: loop_body_def is_newline_def Let_def)
        qed
      qed
    qed
  qed
qed

text \<open>The sorted key list, and what the first match in it is.\<close>

lemma set_sort_longest_first [simp]: "set (sort_longest_first ks) = set ks"
  by (simp add: sort_longest_first_def)

lemma sort_longest_first_descending:
  "sorted_wrt (\<lambda>a b. length b \<le> length a) (sort_longest_first ks)"
proof -
  have "sorted (map (\<lambda>w. - int (length w)) (sort_longest_first ks))"
    by (simp add: sort_longest_first_def)
  then show ?thesis
    by (simp add: sorted_map sorted_wrt_iff_nth_less)
qed

lemma find_first_match:
  assumes "find P xs = Some x"
  shows "\<exists>n<length xs. xs ! n = x \<and> P x \<and> (\<forall>j<n. \<not> P (xs ! j))"
  using assms unfolding find_Some_iff by blast

lemma lexicon_match_longest:
  assumes found: "find (\<lambda>w. startsWith t w i) (sort_longest_first ks) = Some word"
  shows "word \<in> set ks" "startsWith t word i"
    "\<And>k. k \<in> set ks \<Longrightarrow> startsWith t k i \<Longrightarrow> length k \<le> length word"
proof -
  let ?ws = "sort_longest_first ks"
  from find_first_match[OF found] obtain n where n: "n < length ?ws" "?ws ! n = word"
    "startsWith t word i" "\<forall>j<n. \<not> startsWith t (?ws ! j) i"
    by blast
  from n(1,2) have "word \<in> set ?ws" by (metis nth_mem)
  then show "word \<in> set ks" by simp
  show "startsWith t word i" by (rule n(3))
  fix k assume k: "k \<in> set ks" "startsWith t k i"
  then have "k \<in> set ?ws" by simp
  then obtain m where m: "m < length ?ws" "?ws ! m = k" by (metis in_set_conv_nth)
  with k(2) n(4) have "\<not> m < n" by blast
  then consider "m = n" | "n < m" by arith
  then show "length k \<le> length word"
  proof cases
    case 1 with m n show ?thesis by simp
  next
    case 2
    with sort_longest_first_descending[of ks] m(1)
    have "length (?ws ! m) \<le> length (?ws ! n)"
      by (simp add: sorted_wrt_iff_nth_less)
    with m n show ?thesis by simp
  qed
qed

lemma lexicon_match_None:
  "find (\<lambda>w. startsWith t w i) (sort_longest_first ks) = None \<longleftrightarrow>
     (\<forall>k\<in>set ks. \<not> startsWith t k i)"
  by (auto simp: find_None_iff)

lemma lexicon_match_exists:
  assumes "k \<in> set ks" "startsWith t k i"
  shows "\<exists>word. find (\<lambda>w. startsWith t w i) (sort_longest_first ks) = Some word"
proof (cases "find (\<lambda>w. startsWith t w i) (sort_longest_first ks)")
  case None
  with assms show ?thesis unfolding lexicon_match_None by blast
qed blast

text \<open>When the whole text is a key, it is the match at position 0.\<close>

lemma startsWith_whole: "startsWith t t 0"
  by (simp add: startsWith_def)

lemma lexicon_match_whole:
  assumes "t \<in> set ks"
  shows "find (\<lambda>w. startsWith t w 0) (sort_longest_first ks) = Some t"
proof -
  from lexicon_match_exists[OF assms startsWith_whole]
  obtain word where w: "find (\<lambda>w. startsWith t w 0) (sort_longest_first ks) = Some word"
    by blast
  from lexicon_match_longest(3)[OF w assms startsWith_whole]
  have "length t \<le> length word" .
  moreover from lexicon_match_longest(2)[OF w] have "take (length word) t = word"
    by (simp add: startsWith_def)
  ultimately have "word = t" by (metis take_all)
  with w show ?thesis by simp
qed

text \<open>An iteration never moves the cursor back, and moves it forward when no key is empty.\<close>

lemma find_in_set: "find P xs = Some x \<Longrightarrow> x \<in> set xs"
  by (drule find_first_match) (metis nth_mem)

lemma loop_body_advances:
  assumes "cursor s < length t" "[] \<notin> set ws" "[] \<notin> set (keys csv)"
  shows "cursor s < cursor (loop_body t d csv ws s)"
  using assms(1)
proof (cases rule: loop_body_cases[where d = d and csv = csv and ws = ws])
  case (segments word segs)
  from find_in_set[OF segments(4)] assms(2) have "word \<noteq> []" by blast
  with segments(6) show ?thesis by simp
next
  case (notfound word)
  from find_in_set[OF notfound(4)] assms(2) have "word \<noteq> []" by blast
  with notfound(6) show ?thesis by simp
next
  case (csvdirect word)
  from find_in_set[OF csvdirect(5)] assms(3) have "word \<noteq> []" by blast
  with csvdirect(6) show ?thesis by simp
qed simp_all

lemma processScript_returns:
  assumes "[] \<notin> set (keys (ccCedict st))" "[] \<notin> set (keys (csvDictionary st))"
  shows "\<exists>st'. processScript st = Some st'"
proof (cases "length (keys (ccCedict st)) = 0")
  case True
  then show ?thesis by (simp add: processScript_def)
next
  case False
  let ?ws = "sort_longest_first (keys (ccCedict st))"
  from assms(1) have "[] \<notin> set ?ws" by simp
  with assms(2) have "\<exists>s'. while_loop (scriptInput st) (ccCedict st) (csvDictionary st) ?ws
                              \<lparr>cursor = 0, results = [], unknownSet = []\<rparr> = Some s'"
    by (intro while_loop_terminates loop_body_advances)
  with False show ?thesis by (auto simp: processScript_def Let_def)
qed

section \<open>What the emitted segments spell\<close>

lemma kept_text_all: "kept_text xs (replicate n True) = take n xs"
proof (induction n arbitrary: xs)
  case (Suc n)
  then show ?case by (cases xs) (simp_all add: kept_text_def)
qed (simp add: kept_text_def)

lemma zip_take_left: "zip (take (length ys) xs) ys = zip xs ys"
proof (induction ys arbitrary: xs)
  case (Cons y ys)
  then show ?case by (cases xs) simp_all
qed simp

lemma kept_text_append:
  "length kept = i \<Longrightarrow> kept_text t (kept @ rest) = kept_text t kept @ kept_text (drop i t) rest"
  by (auto simp: kept_text_def zip_append2 zip_take_left)

lemma kept_text_drop_one:
  "i < length t \<Longrightarrow> kept_text (drop i t) [False] = []"
  by (cases "drop i t") (simp_all add: kept_text_def)

lemma take_one_drop: "i < length t \<Longrightarrow> take (Suc 0) (drop i t) = [t ! i]"
  by (simp add: take_Suc_conv_app_nth)

text \<open>What one iteration emits: the piece of text it moves over, or nothing for one
  skipped character.\<close>

lemma loop_body_chunk:
  fixes t d csv ws s
  defines "s' \<equiv> loop_body t d csv ws s"
  assumes i: "cursor s < length t"
  shows "\<exists>new. results s' = results s @ new \<and> cursor s' \<le> length t \<and> cursor s \<le> cursor s' \<and>
           (concat (map seg_text new) = take (cursor s' - cursor s) (drop (cursor s) t)
            \<or> new = [] \<and> cursor s' = cursor s + 1 \<and>
              skipped_at t (ws @ keys csv) (cursor s))"
  using i
proof (cases rule: loop_body_cases[where d = d and csv = csv and ws = ws])
  case newline
  with i show ?thesis
    by (simp add: s'_def take_one_drop)
next
  case latin
  with i show ?thesis by (simp add: s'_def take_one_drop)
next
  case blank
  with i show ?thesis by (simp add: s'_def skipped_at_def)
next
  case (segments word segs)
  from find_first_match[OF segments(4)] have sw: "startsWith t word (cursor s)" by blast
  from startsWith_bound[OF sw] i have "cursor s + length word \<le> length t" by simp
  moreover have "concat (map seg_text (map (\<lambda>segment. \<lparr>seg_text = segment, seg_type = Found,
                             seg_data = csv_data csv segment\<rparr>) segs)) = word"
    using GetSegmentsInCsv_concat[OF segments(5)] by (simp add: comp_def)
  ultimately show ?thesis using segments(6) startsWith_slice[OF sw]
    by (simp add: s'_def)
next
  case (notfound word)
  from find_first_match[OF notfound(4)] have sw: "startsWith t word (cursor s)" by blast
  from startsWith_bound[OF sw] i have "cursor s + length word \<le> length t" by simp
  then show ?thesis using notfound(6) startsWith_slice[OF sw]
    by (simp add: s'_def)
next
  case (csvdirect word)
  from find_first_match[OF csvdirect(5)] have sw: "startsWith t word (cursor s)" by blast
  from startsWith_bound[OF sw] i have "cursor s + length word \<le> length t" by simp
  then show ?thesis using csvdirect(6) startsWith_slice[OF sw]
    by (simp add: s'_def)
next
  case skip
  then have "\<forall>w\<in>set (ws @ keys csv). \<not> startsWith t w (cursor s)"
    by (auto simp: find_None_iff)
  with skip i show ?thesis by (simp add: s'_def skipped_at_def)
qed

lemma reconstructs_init: "reconstructs t ks \<lparr>cursor = 0, results = [], unknownSet = []\<rparr>"
  by (simp add: reconstructs_def kept_text_def)

lemma reconstructs_step:
  assumes inv: "reconstructs t (ws @ keys csv) s" and i: "cursor s < length t"
  shows "reconstructs t (ws @ keys csv) (loop_body t d csv ws s)"
proof -
  let ?s' = "loop_body t d csv ws s"
  let ?ks = "ws @ keys csv"
  from inv obtain kept where kept: "length kept = cursor s"
    "concat (map seg_text (results s)) = kept_text t kept"
    "\<forall>j<cursor s. \<not> kept ! j \<longrightarrow> skipped_at t ?ks j"
    unfolding reconstructs_def by blast
  from loop_body_chunk[OF i, of d csv ws] obtain new where new:
    "results ?s' = results s @ new" "cursor ?s' \<le> length t" "cursor s \<le> cursor ?s'"
    "concat (map seg_text new) = take (cursor ?s' - cursor s) (drop (cursor s) t)
       \<or> new = [] \<and> cursor ?s' = cursor s + 1 \<and> skipped_at t ?ks (cursor s)"
    by blast
  from new(4) show ?thesis
  proof
    assume emitted: "concat (map seg_text new) = take (cursor ?s' - cursor s) (drop (cursor s) t)"
    let ?kept = "kept @ replicate (cursor ?s' - cursor s) True"
    have "length ?kept = cursor ?s'" using kept(1) new(3) by simp
    moreover have "concat (map seg_text (results ?s')) = kept_text t ?kept"
      using new(1) kept(1,2) emitted by (simp add: kept_text_append kept_text_all)
    moreover have "\<forall>j<cursor ?s'. \<not> ?kept ! j \<longrightarrow> skipped_at t ?ks j"
      using kept(1,3) by (auto simp: nth_append)
    ultimately show ?thesis using new(2) unfolding reconstructs_def by blast
  next
    assume skipped: "new = [] \<and> cursor ?s' = cursor s + 1 \<and> skipped_at t ?ks (cursor s)"
    let ?kept = "kept @ [False]"
    have "length ?kept = cursor ?s'" using kept(1) skipped by simp
    moreover have "concat (map seg_text (results ?s')) = kept_text t ?kept"
      using new(1) kept(1,2) skipped i by (simp add: kept_text_append kept_text_drop_one)
    moreover have "\<forall>j<cursor ?s'. \<not> ?kept ! j \<longrightarrow> skipped_at t ?ks j"
      using kept(1,3) skipped by (auto simp: nth_append less_Suc_eq)
    ultimately show ?thesis using new(2) unfolding reconstructs_def by blast
  qed
qed

lemma skipped_at_cong: "set ks = set ks' \<Longrightarrow> skipped_at t ks j = skipped_at t ks' j"
  by (simp add: skipped_at_def)

lemma kept_text_none_skipped:
  assumes "length kept = length t" "\<forall>j<length t. kept ! j"
  shows "kept_text t kept = t"
proof -
  from assms have "kept = replicate (length t) True"
    by (simp add: list_eq_iff_nth_eq)
  then have "kept_text t kept = take (length t) t"
    by (metis kept_text_all)
  then show ?thesis by simp
qed

text \<open>What \<open>processScript\<close> returns with a loaded dictionary.\<close>

lemma processScript_SomeE:
  assumes "processScript st = Some st'" and "ccCedict st \<noteq> []"
  obtains s' where
    "while_loop (scriptInput st) (ccCedict st) (csvDictionary st)
       (sort_longest_first (keys (ccCedict st)))
       \<lparr>cursor = 0, results = [], unknownSet = []\<rparr> = Some s'"
    "st' = st\<lparr>processedOutput := results s',
             unknownWords := make_unknownWords (ccCedict st) (unknownSet s')\<rparr>"
  using assms by (auto simp: processScript_def keys_def Let_def split: option.splits)

lemma processScript_reconstructs:
  assumes run: "processScript st = Some st'" and loaded: "ccCedict st \<noteq> []"
  shows "\<exists>kept. length kept = length (scriptInput st) \<and>
           concat (map seg_text (processedOutput st')) = kept_text (scriptInput st) kept \<and>
           (\<forall>j<length (scriptInput st). \<not> kept ! j \<longrightarrow>
               skipped_at (scriptInput st) (keys (ccCedict st) @ keys (csvDictionary st)) j)"
proof -
  let ?t = "scriptInput st" and ?ws = "sort_longest_first (keys (ccCedict st))"
  let ?ks = "?ws @ keys (csvDictionary st)"
  from run loaded obtain s' where s':
    "while_loop ?t (ccCedict st) (csvDictionary st) ?ws
       \<lparr>cursor = 0, results = [], unknownSet = []\<rparr> = Some s'"
    "st' = st\<lparr>processedOutput := results s',
             unknownWords := make_unknownWords (ccCedict st) (unknownSet s')\<rparr>"
    by (rule processScript_SomeE)
  have "reconstructs ?t ?ks s' \<and> length ?t \<le> cursor s'"
    using s'(1) reconstructs_init
  proof (rule while_loop_invariant)
    fix s assume "reconstructs ?t ?ks s" "cursor s < length ?t"
    then show "reconstructs ?t ?ks (loop_body ?t (ccCedict st) (csvDictionary st) ?ws s)"
      by (rule reconstructs_step)
  qed
  then obtain kept where kept: "cursor s' = length ?t" "length kept = cursor s'"
    "concat (map seg_text (results s')) = kept_text ?t kept"
    "\<forall>j<cursor s'. \<not> kept ! j \<longrightarrow> skipped_at ?t ?ks j"
    unfolding reconstructs_def by auto
  have "skipped_at ?t ?ks j = skipped_at ?t (keys (ccCedict st) @ keys (csvDictionary st)) j" for j
    by (rule skipped_at_cong) simp
  with kept s'(2) show ?thesis by auto
qed

text \<open>Unfolding everything evaluates \<open>processScript\<close> on a concrete state.\<close>

lemmas eval_defs =
  processScript_def keys_def sort_longest_first_def while_loop.simps loop_body_def
  is_newline_def is_latin_def trims_to_empty_def startsWith_def GetSegmentsInCsv_def
  has_key_def dict_data_def csv_data_def set_add_def make_unknownWords_def enumerate_eq_zip
  first_pinyin_def first_meaning_def Let_def loaded_state_def get_property_def
  object_prototype_names_def prototype_function_lengths_def js_def

section \<open>Reconstruction of the input (C1)\<close>

text \<open>
  C1, as amended. The claim says that the segment texts, concatenated in output order,
  are the input text, no character left out. The loop emits nothing for white space
  other than a newline, nor for a character at which no key of either dictionary starts,
  so the claim fails as stated. What holds, for a loaded dictionary with no empty key:
  \<open>processScript\<close> returns, and the concatenation is the input with some positions left
  out, in order and without duplication; each position left out is one the loop skips
  (\<open>skipped_at\<close>). Where no position can be skipped, the concatenation is the input.
\<close>

theorem output_spells_unskipped_text:
  assumes "ccCedict st \<noteq> []"
    and "[] \<notin> set (keys (ccCedict st))" and "[] \<notin> set (keys (csvDictionary st))"
  shows "\<exists>st'. processScript st = Some st' \<and>
           (\<exists>kept. length kept = length (scriptInput st) \<and>
              concat (map seg_text (processedOutput st')) = kept_text (scriptInput st) kept \<and>
              (\<forall>j<length (scriptInput st). \<not> kept ! j \<longrightarrow>
                  skipped_at (scriptInput st) (keys (ccCedict st) @ keys (csvDictionary st)) j)) \<and>
           ((\<forall>j<length (scriptInput st).
                \<not> skipped_at (scriptInput st) (keys (ccCedict st) @ keys (csvDictionary st)) j)
              \<longrightarrow> concat (map seg_text (processedOutput st')) = scriptInput st)"
proof -
  from processScript_returns[OF assms(2,3)] obtain st' where run: "processScript st = Some st'"
    by blast
  from processScript_reconstructs[OF run assms(1)] obtain kept where kept:
    "length kept = length (scriptInput st)"
    "concat (map seg_text (processedOutput st')) = kept_text (scriptInput st) kept"
    "\<forall>j<length (scriptInput st). \<not> kept ! j \<longrightarrow>
        skipped_at (scriptInput st) (keys (ccCedict st) @ keys (csvDictionary st)) j"
    by blast
  have "concat (map seg_text (processedOutput st')) = scriptInput st"
    if "\<forall>j<length (scriptInput st).
          \<not> skipped_at (scriptInput st) (keys (ccCedict st) @ keys (csvDictionary st)) j"
  proof -
    from that kept(3) have "\<forall>j<length (scriptInput st). kept ! j" by blast
    with kept(1,2) show ?thesis by (simp add: kept_text_none_skipped)
  qed
  with run kept show ?thesis by blast
qed

text \<open>The theorem at the text U+4F60 U+597D, where every position has a matching key.\<close>

theorem output_spells_unskipped_text_witness:
  "ccCedict (loaded_state [ni, hao] cedict_ni_hao []) \<noteq> []
   \<and> [] \<notin> set (keys (ccCedict (loaded_state [ni, hao] cedict_ni_hao [])))
   \<and> [] \<notin> set (keys (csvDictionary (loaded_state [ni, hao] cedict_ni_hao [])))
   \<and> \<not> skipped_at [ni, hao] (keys cedict_ni_hao) 0
   \<and> \<not> skipped_at [ni, hao] (keys cedict_ni_hao) 1
   \<and> (\<exists>st'. processScript (loaded_state [ni, hao] cedict_ni_hao []) = Some st' \<and>
             concat (map seg_text (processedOutput st')) = [ni, hao])"
proof -
  let ?st = "loaded_state [ni, hao] cedict_ni_hao []"
  have a: "ccCedict ?st \<noteq> []"
    by (simp add: loaded_state_def cedict_ni_hao_def)
  have b: "[] \<notin> set (keys (ccCedict ?st))"
    by (simp add: loaded_state_def cedict_ni_hao_def keys_def)
  have c: "[] \<notin> set (keys (csvDictionary ?st))"
    by (simp add: loaded_state_def keys_def)
  have d0: "\<not> skipped_at [ni, hao] (keys cedict_ni_hao) 0"
    by (simp add: cedict_ni_hao_def keys_def skipped_at_def startsWith_def
        is_latin_def trims_to_empty_def)
  have d1: "\<not> skipped_at [ni, hao] (keys cedict_ni_hao) 1"
    by (simp add: cedict_ni_hao_def keys_def skipped_at_def startsWith_def
        is_latin_def trims_to_empty_def)
  have d: "\<forall>j<length (scriptInput ?st).
             \<not> skipped_at (scriptInput ?st) (keys (ccCedict ?st) @ keys (csvDictionary ?st)) j"
    using d0 d1 by (simp add: loaded_state_def keys_def All_less_Suc)
  have e: "scriptInput ?st = [ni, hao]"
    by (simp add: loaded_state_def)
  from output_spells_unskipped_text[OF a b c] d e
  have "\<exists>st'. processScript ?st = Some st' \<and>
               concat (map seg_text (processedOutput st')) = [ni, hao]"
    by auto
  with a b c d0 d1 show ?thesis by blast
qed

text \<open>
  The claim as stated fails on U+4F60, space, U+597D: the space is in no segment, and the
  two segment texts spell a two-character string.
\<close>

theorem reconstruction_counterexample:
  "processScript (loaded_state [ni, 0x20, hao] cedict_ni_hao []) =
     Some ((loaded_state [ni, 0x20, hao] cedict_ni_hao [])
        \<lparr>processedOutput :=
           [\<lparr>seg_text = [ni], seg_type = NotFound,
             seg_data = DictEntries [dict_entry_of ''ni3'' ''you'']\<rparr>,
            \<lparr>seg_text = [hao], seg_type = NotFound,
             seg_data = DictEntries [dict_entry_of ''hao3'' ''good'']\<rparr>],
         unknownWords :=
           [\<lparr>uw_index = 1, uw_word = [ni], uw_pinyin = js ''ni3'', uw_meaning = js ''you''\<rparr>,
            \<lparr>uw_index = 2, uw_word = [hao], uw_pinyin = js ''hao3'', uw_meaning = js ''good''\<rparr>]\<rparr>)
   \<and> concat (map seg_text
        [\<lparr>seg_text = [ni], seg_type = NotFound,
          seg_data = DictEntries [dict_entry_of ''ni3'' ''you'']\<rparr>,
         \<lparr>seg_text = [hao], seg_type = NotFound,
          seg_data = DictEntries [dict_entry_of ''hao3'' ''good'']\<rparr>]) \<noteq> [ni, 0x20, hao]"
  by (simp add: eval_defs cedict_ni_hao_def dict_entry_of_def)


section \<open>Matching against the Lexicon\<close>

text \<open>The iteration that matches a Lexicon key.\<close>

lemma lexicon_step:
  assumes i: "cursor s < length t"
    and c: "t ! cursor s \<noteq> 0x0A" "\<not> is_latin (t ! cursor s)" "\<not> trims_to_empty (t ! cursor s)"
    and found: "find (\<lambda>w. startsWith t w (cursor s)) ws = Some word"
  shows "loop_body t d csv ws s =
           (case GetSegmentsInCsv csv word of
              Some validSegments \<Rightarrow>
                s\<lparr>results := results s @
                     map (\<lambda>segment. \<lparr>seg_text = segment, seg_type = Found,
                                      seg_data = csv_data csv segment\<rparr>) validSegments,
                  cursor := cursor s + length word\<rparr>
            | None \<Rightarrow>
                s\<lparr>results := results s @
                     [\<lparr>seg_text = word, seg_type = NotFound, seg_data = dict_data d word\<rparr>],
                  unknownSet := set_add (unknownSet s) word,
                  cursor := cursor s + length word\<rparr>)"
  using c found by (simp add: loop_body_def Let_def is_newline_def)

lemma lexicon_step_effect:
  assumes i: "cursor s < length t"
    and c: "t ! cursor s \<noteq> 0x0A" "\<not> is_latin (t ! cursor s)" "\<not> trims_to_empty (t ! cursor s)"
    and found: "find (\<lambda>w. startsWith t w (cursor s)) ws = Some word"
  shows "cursor (loop_body t d csv ws s) = cursor s + length word"
    and "concat (map seg_text (drop (length (results s)) (results (loop_body t d csv ws s)))) = word"
proof -
  note step = lexicon_step[OF i c found, of d csv]
  show "cursor (loop_body t d csv ws s) = cursor s + length word"
    unfolding step by (simp split: option.splits)
  show "concat (map seg_text (drop (length (results s)) (results (loop_body t d csv ws s)))) = word"
    unfolding step
    by (auto simp: comp_def dest: GetSegmentsInCsv_concat split: option.splits)
qed

lemma csv_data_Some: "map_of csv w = Some es \<Longrightarrow> csv_data csv w = CsvEntries es"
  by (simp add: csv_data_def get_property_def)

text \<open>A text that is itself a Lexicon key is matched whole by the first iteration.\<close>

lemma whole_word_run:
  assumes key: "word \<in> set (keys d)" and ne: "word \<noteq> []"
    and c: "\<not> is_latin (hd word)" "\<not> trims_to_empty (hd word)"
  shows "while_loop word d csv (sort_longest_first (keys d))
           \<lparr>cursor = 0, results = [], unknownSet = []\<rparr> =
         Some (case GetSegmentsInCsv csv word of
                 Some validSegments \<Rightarrow>
                   \<lparr>cursor = length word,
                    results = map (\<lambda>segment. \<lparr>seg_text = segment, seg_type = Found,
                                      seg_data = csv_data csv segment\<rparr>) validSegments,
                    unknownSet = []\<rparr>
               | None \<Rightarrow>
                   \<lparr>cursor = length word,
                    results = [\<lparr>seg_text = word, seg_type = NotFound,
                                seg_data = dict_data d word\<rparr>],
                    unknownSet = [word]\<rparr>)"
proof -
  let ?s0 = "\<lparr>cursor = 0, results = [], unknownSet = []\<rparr>"
  let ?ws = "sort_longest_first (keys d)"
  from ne have hd: "word ! cursor ?s0 = hd word" by (simp add: hd_conv_nth)
  from c(2) have "hd word \<noteq> 0x0A" by (auto simp: trims_to_empty_def)
  with hd have c1: "word ! cursor ?s0 \<noteq> 0x0A" by simp
  from c hd have c2: "\<not> is_latin (word ! cursor ?s0)" "\<not> trims_to_empty (word ! cursor ?s0)"
    by simp_all
  from ne have i: "cursor ?s0 < length word" by simp
  have found: "find (\<lambda>w. startsWith word w (cursor ?s0)) ?ws = Some word"
    using lexicon_match_whole[OF key] by simp
  note step = lexicon_step[OF i c1 c2 found, of d csv]
  have "while_loop word d csv ?ws ?s0 = while_loop word d csv ?ws (loop_body word d csv ?ws ?s0)"
    using i by (subst while_loop.simps) simp
  also have "\<dots> = Some (loop_body word d csv ?ws ?s0)"
    unfolding step by (subst while_loop.simps) (simp split: option.splits)
  finally show ?thesis
    unfolding step by (simp add: set_add_def split: option.splits)
qed

lemma processScript_whole_word:
  assumes key: "scriptInput st \<in> set (keys (ccCedict st))" and ne: "scriptInput st \<noteq> []"
    and c: "\<not> is_latin (hd (scriptInput st))" "\<not> trims_to_empty (hd (scriptInput st))"
  shows "processScript st =
     Some (case GetSegmentsInCsv (csvDictionary st) (scriptInput st) of
             Some validSegments \<Rightarrow>
               st\<lparr>processedOutput :=
                     map (\<lambda>segment. \<lparr>seg_text = segment, seg_type = Found,
                              seg_data = csv_data (csvDictionary st) segment\<rparr>) validSegments,
                  unknownWords := []\<rparr>
           | None \<Rightarrow>
               st\<lparr>processedOutput :=
                     [\<lparr>seg_text = scriptInput st, seg_type = NotFound,
                       seg_data = dict_data (ccCedict st) (scriptInput st)\<rparr>],
                  unknownWords := make_unknownWords (ccCedict st) [scriptInput st]\<rparr>)"
proof -
  from key have "keys (ccCedict st) \<noteq> []" by auto
  then show ?thesis
    unfolding processScript_def Let_def whole_word_run[OF key ne c]
    by (simp add: make_unknownWords_def enumerate_eq_zip split: option.splits)
qed


lemma mset_sort_longest_first: "mset (sort_longest_first ks) = mset ks"
  by (simp add: sort_longest_first_def)

lemma GetSegmentsInCsv_empty_ni_hao: "GetSegmentsInCsv [] [ni, hao] = None"
  by (simp add: GetSegmentsInCsv_def has_key_def get_property_plain is_latin_def)

subsection \<open>Longest match (C2)\<close>

text \<open>
  C2. The keys of the Lexicon are visited in an order that is a rearrangement of them by
  descending length. Where a Lexicon match is attempted (the character at the cursor is
  no newline, Latin letter or white space) and some key is a prefix of the text at the
  cursor, the loop takes the first such key in that order; it is a key of maximal length
  among those that are prefixes there, the cursor moves on by its length and the segments
  pushed spell it. With both U+4F60 and U+4F60 U+597D in the Lexicon and an empty CSV
  dictionary, the text U+4F60 U+597D gives the single \<open>not-found\<close> segment of the whole
  text.
\<close>

theorem longest_lexicon_match:
  "(\<forall>d :: Dictionary.
       mset (sort_longest_first (keys d)) = mset (keys d) \<and>
       sorted_wrt (\<lambda>a b. length b \<le> length a) (sort_longest_first (keys d)))
   \<and> (\<forall>t d csv k. \<forall>s :: loop_state.
         cursor s < length t \<and> t ! cursor s \<noteq> 0x0A \<and> \<not> is_latin (t ! cursor s) \<and>
         \<not> trims_to_empty (t ! cursor s) \<and> k \<in> set (keys d) \<and> startsWith t k (cursor s) \<longrightarrow>
         (\<exists>word. find (\<lambda>w. startsWith t w (cursor s)) (sort_longest_first (keys d)) = Some word \<and>
                 word \<in> set (keys d) \<and> startsWith t word (cursor s) \<and>
                 (\<forall>k'\<in>set (keys d). startsWith t k' (cursor s) \<longrightarrow> length k' \<le> length word) \<and>
                 cursor (loop_body t d csv (sort_longest_first (keys d)) s) = cursor s + length word \<and>
                 concat (map seg_text (drop (length (results s))
                    (results (loop_body t d csv (sort_longest_first (keys d)) s)))) = word))
   \<and> (\<forall>st. [ni] \<in> set (keys (ccCedict st)) \<and> [ni, hao] \<in> set (keys (ccCedict st)) \<and>
            csvDictionary st = [] \<and> scriptInput st = [ni, hao] \<longrightarrow>
         processScript st =
           Some (st\<lparr>processedOutput :=
                      [\<lparr>seg_text = [ni, hao], seg_type = NotFound,
                        seg_data = dict_data (ccCedict st) [ni, hao]\<rparr>],
                    unknownWords := make_unknownWords (ccCedict st) [[ni, hao]]\<rparr>))"
proof -
  have order: "mset (sort_longest_first (keys d)) = mset (keys d) \<and>
       sorted_wrt (\<lambda>a b. length b \<le> length a) (sort_longest_first (keys d))"
    for d :: Dictionary
    by (simp add: mset_sort_longest_first sort_longest_first_descending)
  have pick: "\<exists>word. find (\<lambda>w. startsWith t w (cursor s)) (sort_longest_first (keys d)) = Some word \<and>
                 word \<in> set (keys d) \<and> startsWith t word (cursor s) \<and>
                 (\<forall>k'\<in>set (keys d). startsWith t k' (cursor s) \<longrightarrow> length k' \<le> length word) \<and>
                 cursor (loop_body t d csv (sort_longest_first (keys d)) s) = cursor s + length word \<and>
                 concat (map seg_text (drop (length (results s))
                    (results (loop_body t d csv (sort_longest_first (keys d)) s)))) = word"
    if h: "cursor s < length t \<and> t ! cursor s \<noteq> 0x0A \<and> \<not> is_latin (t ! cursor s) \<and>
         \<not> trims_to_empty (t ! cursor s) \<and> k \<in> set (keys d) \<and> startsWith t k (cursor s)"
    for t d csv k and s :: loop_state
  proof -
    from h have i: "cursor s < length t" and c: "t ! cursor s \<noteq> 0x0A"
      "\<not> is_latin (t ! cursor s)" "\<not> trims_to_empty (t ! cursor s)"
      and k: "k \<in> set (keys d)" "startsWith t k (cursor s)"
      by simp_all
    from lexicon_match_exists[OF k] obtain word where
      w: "find (\<lambda>w. startsWith t w (cursor s)) (sort_longest_first (keys d)) = Some word"
      by blast
    note best = lexicon_match_longest[OF w]
    note eff = lexicon_step_effect[OF i c w, of d csv]
    from w best eff show ?thesis by blast
  qed
  have example: "processScript st =
           Some (st\<lparr>processedOutput :=
                      [\<lparr>seg_text = [ni, hao], seg_type = NotFound,
                        seg_data = dict_data (ccCedict st) [ni, hao]\<rparr>],
                    unknownWords := make_unknownWords (ccCedict st) [[ni, hao]]\<rparr>)"
    if h: "[ni] \<in> set (keys (ccCedict st)) \<and> [ni, hao] \<in> set (keys (ccCedict st)) \<and>
            csvDictionary st = [] \<and> scriptInput st = [ni, hao]" for st
  proof -
    from h have key: "scriptInput st \<in> set (keys (ccCedict st))" by simp
    from h have ne: "scriptInput st \<noteq> []" by simp
    from h have c: "\<not> is_latin (hd (scriptInput st))" "\<not> trims_to_empty (hd (scriptInput st))"
      by (simp_all add: is_latin_def trims_to_empty_def)
    from h show ?thesis
      unfolding processScript_whole_word[OF key ne c]
      by (simp add: GetSegmentsInCsv_empty_ni_hao)
  qed
  from order pick example show ?thesis by blast
qed


text \<open>The theorem on the three-entry dictionary.\<close>

theorem longest_lexicon_match_witness:
  "0 < length [ni, hao] \<and> [ni, hao] ! 0 \<noteq> 0x0A \<and> \<not> is_latin ([ni, hao] ! 0)
   \<and> \<not> trims_to_empty ([ni, hao] ! 0)
   \<and> [ni] \<in> set (keys cedict_ni_hao) \<and> startsWith [ni, hao] [ni] 0
   \<and> cursor (loop_body [ni, hao] cedict_ni_hao [] (sort_longest_first (keys cedict_ni_hao))
               \<lparr>cursor = 0, results = [], unknownSet = []\<rparr>) = 2
   \<and> [ni] \<in> set (keys (ccCedict (loaded_state [ni, hao] cedict_ni_hao [])))
   \<and> [ni, hao] \<in> set (keys (ccCedict (loaded_state [ni, hao] cedict_ni_hao [])))
   \<and> csvDictionary (loaded_state [ni, hao] cedict_ni_hao []) = []
   \<and> scriptInput (loaded_state [ni, hao] cedict_ni_hao []) = [ni, hao]
   \<and> processScript (loaded_state [ni, hao] cedict_ni_hao []) =
       Some ((loaded_state [ni, hao] cedict_ni_hao [])
              \<lparr>processedOutput :=
                 [\<lparr>seg_text = [ni, hao], seg_type = NotFound,
                   seg_data = DictEntries [dict_entry_of ''ni3 hao3'' ''hello'']\<rparr>],
               unknownWords :=
                 [\<lparr>uw_index = 1, uw_word = [ni, hao], uw_pinyin = js ''ni3 hao3'',
                   uw_meaning = js ''hello''\<rparr>]\<rparr>)"
proof -
  let ?st = "loaded_state [ni, hao] cedict_ni_hao []"
  let ?s = "\<lparr>cursor = 0, results = [], unknownSet = []\<rparr>"
  let ?ws = "sort_longest_first (keys cedict_ni_hao)"
  have g: "cursor ?s < length [ni, hao] \<and> [ni, hao] ! cursor ?s \<noteq> 0x0A \<and>
           \<not> is_latin ([ni, hao] ! cursor ?s) \<and> \<not> trims_to_empty ([ni, hao] ! cursor ?s) \<and>
           [ni] \<in> set (keys cedict_ni_hao) \<and> startsWith [ni, hao] [ni] (cursor ?s)"
    by (simp add: is_latin_def trims_to_empty_def cedict_ni_hao_def keys_def startsWith_def)
  with longest_lexicon_match obtain word where
    w: "find (\<lambda>w. startsWith [ni, hao] w (cursor ?s)) ?ws = Some word"
    and c: "cursor (loop_body [ni, hao] cedict_ni_hao [] ?ws ?s) = cursor ?s + length word"
    by blast
  have "find (\<lambda>w. startsWith [ni, hao] w (cursor ?s)) ?ws = Some [ni, hao]"
    by (simp add: cedict_ni_hao_def keys_def sort_longest_first_def startsWith_def)
  with w have "word = [ni, hao]" by simp
  with c have step: "cursor (loop_body [ni, hao] cedict_ni_hao [] ?ws ?s) = 2" by simp
  have h: "[ni] \<in> set (keys (ccCedict ?st)) \<and> [ni, hao] \<in> set (keys (ccCedict ?st)) \<and>
           csvDictionary ?st = [] \<and> scriptInput ?st = [ni, hao]"
    by (simp add: loaded_state_def cedict_ni_hao_def keys_def)
  with longest_lexicon_match have "processScript ?st =
           Some (?st\<lparr>processedOutput :=
                      [\<lparr>seg_text = [ni, hao], seg_type = NotFound,
                        seg_data = dict_data (ccCedict ?st) [ni, hao]\<rparr>],
                    unknownWords := make_unknownWords (ccCedict ?st) [[ni, hao]]\<rparr>)"
    by blast
  moreover have "dict_data (ccCedict ?st) [ni, hao] = DictEntries [dict_entry_of ''ni3 hao3'' ''hello'']"
    by (simp add: loaded_state_def cedict_ni_hao_def dict_data_def get_property_def)
  moreover have "make_unknownWords (ccCedict ?st) [[ni, hao]] =
                 [\<lparr>uw_index = 1, uw_word = [ni, hao], uw_pinyin = js ''ni3 hao3'',
                   uw_meaning = js ''hello''\<rparr>]"
    by (simp add: loaded_state_def cedict_ni_hao_def make_unknownWords_def enumerate_eq_zip
        first_pinyin_map_of first_meaning_map_of dict_entry_of_def)
  ultimately have run: "processScript ?st =
       Some (?st\<lparr>processedOutput :=
                 [\<lparr>seg_text = [ni, hao], seg_type = NotFound,
                   seg_data = DictEntries [dict_entry_of ''ni3 hao3'' ''hello'']\<rparr>],
               unknownWords :=
                 [\<lparr>uw_index = 1, uw_word = [ni, hao], uw_pinyin = js ''ni3 hao3'',
                   uw_meaning = js ''hello''\<rparr>]\<rparr>)"
    by simp
  from g step h run show ?thesis by simp
qed

subsection \<open>The first split into two curriculum words (C3)\<close>

text \<open>
  What the loop does with a matched Lexicon word for which the test of line 121 fails:
  it splits at the least point at which the test of line 129 holds of both halves.
\<close>

lemma first_split_step:
  assumes i: "cursor s < length t"
    and c: "t ! cursor s \<noteq> 0x0A" "\<not> is_latin (t ! cursor s)" "\<not> trims_to_empty (t ! cursor s)"
    and w: "find (\<lambda>w. startsWith t w (cursor s)) ws = Some word"
    and k: "\<not> has_key csv word" "0 < k" "k < length word"
      "has_key csv (take k word)" "has_key csv (drop k word)"
      "\<forall>j. 0 < j \<and> j < k \<longrightarrow> \<not> (has_key csv (take j word) \<and> has_key csv (drop j word))"
  shows "loop_body t d csv ws s =
         s\<lparr>results := results s @
              [\<lparr>seg_text = take k word, seg_type = Found, seg_data = csv_data csv (take k word)\<rparr>,
               \<lparr>seg_text = drop k word, seg_type = Found, seg_data = csv_data csv (drop k word)\<rparr>],
           cursor := cursor s + length word\<rparr>"
proof -
  from k have split: "GetSegmentsInCsv csv word = Some [take k word, drop k word]"
    by (intro GetSegmentsInCsv_first_split)
  show ?thesis
    unfolding lexicon_step[OF i c w, of d csv] split by simp
qed

text \<open>
  The example of the specification: the Lexicon of U+4F60 U+597D U+5417 alone and the CSV
  keys U+4F60 U+597D and U+5417 give the two \<open>found\<close> segments of the halves.
\<close>

lemma ni_hao_ma_run:
  assumes "scriptInput st = [ni, hao, ma]" "ccCedict st = [([ni, hao, ma], es)]"
    and "csvDictionary st = [([ni, hao], a), ([ma], b)]"
  shows "processScript st =
           Some (st\<lparr>processedOutput :=
                      [\<lparr>seg_text = [ni, hao], seg_type = Found, seg_data = CsvEntries a\<rparr>,
                       \<lparr>seg_text = [ma], seg_type = Found, seg_data = CsvEntries b\<rparr>],
                    unknownWords := []\<rparr>)"
  using assms by (simp add: eval_defs)

text \<open>
  C3. The claim wants the split at the least point at which both halves are keys of the
  CurriculumLexicon, with two segments that carry curriculum entries. The source tests
  \<open>csvDictionary.value[left] && csvDictionary.value[right]\<close>, and a read of a name that
  \<open>Object.prototype\<close> supplies is truthy though the name is no key. On the Lexicon word
  U+4F60 \<open>valueOf\<close>, with the CSV keys U+4F60, U+4F60 \<open>v\<close> and \<open>alueOf\<close>, the least split
  into two keys is at 2. The loop splits at 1: \<open>valueOf\<close> is no key, yet the second
  segment is \<open>found\<close>, of \<open>valueOf\<close>, and its data is the inherited function.
\<close>

theorem split_at_inherited_name:
  "map_of csv_ni_valueOf (take 1 (ni # js ''valueOf'')) =
     Some [csv_entry_of ''1'' ''ni3'' ''pronoun'' ''you'']
   \<and> map_of csv_ni_valueOf (drop 1 (ni # js ''valueOf'')) = None
   \<and> map_of csv_ni_valueOf (take 2 (ni # js ''valueOf'')) =
     Some [csv_entry_of ''2'' ''ni3 v'' ''phrase'' ''your v'']
   \<and> map_of csv_ni_valueOf (drop 2 (ni # js ''valueOf'')) =
     Some [csv_entry_of ''2'' ''alueOf'' ''phrase'' ''alue of'']
   \<and> map_of csv_ni_valueOf (ni # js ''valueOf'') = None
   \<and> processScript (loaded_state (ni # js ''valueOf'') cedict_ni_valueOf csv_ni_valueOf) =
       Some ((loaded_state (ni # js ''valueOf'') cedict_ni_valueOf csv_ni_valueOf)
              \<lparr>processedOutput :=
                 [\<lparr>seg_text = [ni], seg_type = Found,
                   seg_data = CsvEntries [csv_entry_of ''1'' ''ni3'' ''pronoun'' ''you'']\<rparr>,
                  \<lparr>seg_text = js ''valueOf'', seg_type = Found,
                   seg_data = PrototypeMember (js ''valueOf'')\<rparr>],
               unknownWords := []\<rparr>)"
  by (simp add: eval_defs cedict_ni_valueOf_def csv_ni_valueOf_def)

subsection \<open>Curriculum precedence (C4)\<close>

text \<open>
  C4, as amended. The claim is about any word that is a key of both dictionaries. The
  loop looks at the first character before it looks at any dictionary, so a word that
  starts with a Latin letter, a newline or white space is never matched as a word. For a
  non-empty word whose first character is none of these, a text that is exactly the word
  gives exactly one \<open>found\<close> segment, of the word, carrying the CSV entries.
\<close>

theorem curriculum_annotations_take_precedence:
  assumes "map_of (ccCedict st) word = Some lexicon_entries"
    and "map_of (csvDictionary st) word = Some curriculum_entries"
    and "scriptInput st = word"
    and "word \<noteq> []" and "\<not> is_latin (hd word)" and "\<not> trims_to_empty (hd word)"
  shows "processScript st =
           Some (st\<lparr>processedOutput :=
                      [\<lparr>seg_text = word, seg_type = Found,
                        seg_data = CsvEntries curriculum_entries\<rparr>],
                    unknownWords := []\<rparr>)"
proof -
  from own_key_in_keys[OF assms(1)] assms(3)
  have key: "scriptInput st \<in> set (keys (ccCedict st))"
    by simp
  from assms(2) have "has_key (csvDictionary st) word" by (rule has_key_own)
  then have direct: "GetSegmentsInCsv (csvDictionary st) word = Some [word]"
    by (rule GetSegmentsInCsv_direct)
  from assms(3-6) have ne: "scriptInput st \<noteq> []"
    and c: "\<not> is_latin (hd (scriptInput st))" "\<not> trims_to_empty (hd (scriptInput st))"
    by simp_all
  show ?thesis
    unfolding processScript_whole_word[OF key ne c]
    by (simp add: assms(3) direct csv_data_Some[OF assms(2)])
qed

text \<open>The theorem on U+4F60 U+597D, a key of both example dictionaries.\<close>

theorem curriculum_annotations_take_precedence_witness:
  "map_of (ccCedict (loaded_state [ni, hao] cedict_ni_hao csv_nihao_ma)) [ni, hao] =
     Some [dict_entry_of ''ni3 hao3'' ''hello'']
   \<and> map_of (csvDictionary (loaded_state [ni, hao] cedict_ni_hao csv_nihao_ma)) [ni, hao] =
     Some [csv_entry_of ''1'' ''ni3 hao3'' ''phrase'' ''hello'']
   \<and> scriptInput (loaded_state [ni, hao] cedict_ni_hao csv_nihao_ma) = [ni, hao]
   \<and> [ni, hao] \<noteq> [] \<and> \<not> is_latin (hd [ni, hao]) \<and> \<not> trims_to_empty (hd [ni, hao])
   \<and> processScript (loaded_state [ni, hao] cedict_ni_hao csv_nihao_ma) =
       Some ((loaded_state [ni, hao] cedict_ni_hao csv_nihao_ma)
              \<lparr>processedOutput :=
                 [\<lparr>seg_text = [ni, hao], seg_type = Found,
                   seg_data = CsvEntries [csv_entry_of ''1'' ''ni3 hao3'' ''phrase'' ''hello'']\<rparr>],
               unknownWords := []\<rparr>)"
proof -
  let ?st = "loaded_state [ni, hao] cedict_ni_hao csv_nihao_ma"
  have a: "map_of (ccCedict ?st) [ni, hao] = Some [dict_entry_of ''ni3 hao3'' ''hello'']"
    by (simp add: loaded_state_def cedict_ni_hao_def)
  have b: "map_of (csvDictionary ?st) [ni, hao] =
             Some [csv_entry_of ''1'' ''ni3 hao3'' ''phrase'' ''hello'']"
    by (simp add: loaded_state_def csv_nihao_ma_def)
  have c: "scriptInput ?st = [ni, hao]" by (simp add: loaded_state_def)
  have d: "[ni, hao] \<noteq> []" by simp
  have e: "\<not> is_latin (hd [ni, hao])" by (simp add: is_latin_def)
  have f: "\<not> trims_to_empty (hd [ni, hao])" by (simp add: trims_to_empty_def)
  from curriculum_annotations_take_precedence[OF a b c d e f] a b c d e f
  show ?thesis by blast
qed

text \<open>
  The claim as stated fails on the word T, U+6064, a key of both dictionaries: the output
  is the one-letter segment of T with the data of the Latin branch.
\<close>

theorem latin_initial_word_counterexample:
  "map_of cedict_tshirt [0x54, 0x6064] = Some [dict_entry_of ''T xu4'' ''T-shirt'']
   \<and> map_of csv_tshirt [0x54, 0x6064] = Some [csv_entry_of ''3'' ''T xu4'' ''noun'' ''T-shirt'']
   \<and> processScript (loaded_state [0x54, 0x6064] cedict_tshirt csv_tshirt) =
       Some ((loaded_state [0x54, 0x6064] cedict_tshirt csv_tshirt)
              \<lparr>processedOutput := [latin_segment 0x54], unknownWords := []\<rparr>)
   \<and> [latin_segment 0x54] \<noteq>
       [\<lparr>seg_text = [0x54, 0x6064], seg_type = Found,
         seg_data = CsvEntries [csv_entry_of ''3'' ''T xu4'' ''noun'' ''T-shirt'']\<rparr>]"
  by (simp add: eval_defs cedict_tshirt_def csv_tshirt_def latin_segment_def)

section \<open>The empty dictionary (C5)\<close>

text \<open>
  C5, as amended. The claim says that with an empty Lexicon the call produces no segment
  and leaves all output state as it was. The source does signal the condition whatever
  the text and the CSV dictionary are, and runs no segmentation, but it signals by
  changing the output: it warns on the console and pushes one \<open>not-found\<close> segment
  carrying the error message onto the \<open>processedOutput\<close> already there. Nothing else
  changes; \<open>unknownWords\<close> keeps its value.
\<close>

theorem empty_dictionary_pushes_error_segment:
  assumes "ccCedict st = []"
  shows "processScript st =
           Some (st\<lparr>console_warn :=
                      console_warn st @ [js ''CC-CEDICT is empty. Cannot process script.''],
                    processedOutput := processedOutput st @ [error_segment]\<rparr>)
         \<and> seg_type error_segment = NotFound
         \<and> seg_data error_segment = Undefined
         \<and> seg_text error_segment = js ''Error: Dictionary not loaded or empty.''"
  using assms by (simp add: processScript_def keys_def error_segment_def)

text \<open>The theorem on a freshly loaded state with no CC-CEDICT entry.\<close>

theorem empty_dictionary_pushes_error_segment_witness:
  "ccCedict (loaded_state [ni, hao] [] csv_nihao_ma) = []
   \<and> processScript (loaded_state [ni, hao] [] csv_nihao_ma) =
       Some ((loaded_state [ni, hao] [] csv_nihao_ma)
              \<lparr>console_warn := [js ''CC-CEDICT is empty. Cannot process script.''],
               processedOutput := [error_segment]\<rparr>)"
proof -
  have e: "ccCedict (loaded_state [ni, hao] [] csv_nihao_ma) = []"
    by (simp add: loaded_state_def)
  from empty_dictionary_pushes_error_segment[OF e] e show ?thesis
    by (simp add: loaded_state_def)
qed

text \<open>The claim as stated fails there: the output is not what it was before the call.\<close>

theorem empty_dictionary_counterexample:
  "processScript (loaded_state [ni, hao] [] csv_nihao_ma) =
     Some ((loaded_state [ni, hao] [] csv_nihao_ma)
            \<lparr>console_warn := [js ''CC-CEDICT is empty. Cannot process script.''],
             processedOutput := [error_segment]\<rparr>)
   \<and> processedOutput ((loaded_state [ni, hao] [] csv_nihao_ma)
            \<lparr>console_warn := [js ''CC-CEDICT is empty. Cannot process script.''],
             processedOutput := [error_segment]\<rparr>)
       \<noteq> processedOutput (loaded_state [ni, hao] [] csv_nihao_ma)"
  by (simp add: processScript_def keys_def loaded_state_def)

section \<open>Latin letters (C7)\<close>

lemma latin_step:
  assumes "cursor s < length t" "is_latin (t ! cursor s)"
  shows "loop_body t d csv ws s =
           s\<lparr>results := results s @ [latin_segment (t ! cursor s)], cursor := cursor s + 1\<rparr>"
proof -
  have "\<not> is_latin 0x0A" by (simp add: is_latin_def)
  with assms(2) have "\<not> is_newline (t ! cursor s)" by (auto simp: is_newline_def)
  with assms(2) show ?thesis
    by (simp add: loop_body_def Let_def latin_segment_def)
qed

lemma ni_hao_run:
  assumes "ccCedict st \<noteq> []" "scriptInput st = js ''ni hao''"
  shows "processScript st =
           Some (st\<lparr>processedOutput := map latin_segment (js ''nihao''), unknownWords := []\<rparr>)"
  using assms by (simp add: eval_defs js_def latin_segment_def)

text \<open>
  C7, as amended. At an ASCII Latin letter the loop pushes one \<open>found\<close> segment whose
  text is that letter alone, and moves on by one. For the text \<open>ni hao\<close> and any loaded
  dictionary, \<open>processScript\<close> returns five segments, of \<open>n\<close>, \<open>i\<close>, \<open>h\<close>, \<open>a\<close>, \<open>o\<close>,
  all \<open>found\<close>, none \<open>not-found\<close>, the space skipped, and no unknown word; the claim
  counts six. What such a segment carries as data is the matter of C8 and is left out
  here.
\<close>

theorem latin_letters_pass_through:
  "(\<forall>t d csv ws. \<forall>s::loop_state. cursor s < length t \<and> is_latin (t ! cursor s) \<longrightarrow>
       (\<exists>seg. loop_body t d csv ws s =
                 s\<lparr>results := results s @ [seg], cursor := cursor s + 1\<rparr> \<and>
              seg_text seg = [t ! cursor s] \<and> seg_type seg = Found))
   \<and> (\<forall>st. ccCedict st \<noteq> [] \<and> scriptInput st = js ''ni hao'' \<longrightarrow>
         (\<exists>st'. processScript st = Some st' \<and>
            map seg_text (processedOutput st') = [js ''n'', js ''i'', js ''h'', js ''a'', js ''o''] \<and>
            map seg_type (processedOutput st') = [Found, Found, Found, Found, Found] \<and>
            length (processedOutput st') = 5 \<and>
            unknownWords st' = []))"
proof -
  have step: "\<exists>seg. loop_body t d csv ws s =
                 s\<lparr>results := results s @ [seg], cursor := cursor s + 1\<rparr> \<and>
              seg_text seg = [t ! cursor s] \<and> seg_type seg = Found"
    if "cursor s < length t \<and> is_latin (t ! cursor s)" for t d csv ws and s :: loop_state
    using that latin_step[of s t d csv ws]
    by (intro exI[of _ "latin_segment (t ! cursor s)"]) (simp add: latin_segment_def)
  have run: "\<exists>st'. processScript st = Some st' \<and>
            map seg_text (processedOutput st') = [js ''n'', js ''i'', js ''h'', js ''a'', js ''o''] \<and>
            map seg_type (processedOutput st') = [Found, Found, Found, Found, Found] \<and>
            length (processedOutput st') = 5 \<and>
            unknownWords st' = []"
    if "ccCedict st \<noteq> [] \<and> scriptInput st = js ''ni hao''" for st
    using that by (simp add: ni_hao_run js_def latin_segment_def)
  from step run show ?thesis by blast
qed

text \<open>The theorem on \<open>ni hao\<close> with a three-entry dictionary.\<close>

theorem latin_letters_pass_through_witness:
  "0 < length (js ''ni hao'') \<and> is_latin (js ''ni hao'' ! 0)
   \<and> cursor (loop_body (js ''ni hao'') cedict_ni_hao [] (sort_longest_first (keys cedict_ni_hao))
               \<lparr>cursor = 0, results = [], unknownSet = []\<rparr>) = 1
   \<and> map seg_text
        (results (loop_body (js ''ni hao'') cedict_ni_hao [] (sort_longest_first (keys cedict_ni_hao))
                   \<lparr>cursor = 0, results = [], unknownSet = []\<rparr>)) = [js ''n'']
   \<and> ccCedict (loaded_state (js ''ni hao'') cedict_ni_hao []) \<noteq> []
   \<and> scriptInput (loaded_state (js ''ni hao'') cedict_ni_hao []) = js ''ni hao''
   \<and> (\<exists>st'. processScript (loaded_state (js ''ni hao'') cedict_ni_hao []) = Some st' \<and>
          map seg_text (processedOutput st') = [js ''n'', js ''i'', js ''h'', js ''a'', js ''o''] \<and>
          map seg_type (processedOutput st') = [Found, Found, Found, Found, Found])"
proof -
  let ?s = "\<lparr>cursor = 0, results = [], unknownSet = []\<rparr>"
  let ?ws = "sort_longest_first (keys cedict_ni_hao)"
  let ?st = "loaded_state (js ''ni hao'') cedict_ni_hao []"
  have l: "cursor ?s < length (js ''ni hao'') \<and> is_latin (js ''ni hao'' ! cursor ?s)"
    by (simp add: js_def is_latin_def)
  with latin_letters_pass_through obtain seg where
    "loop_body (js ''ni hao'') cedict_ni_hao [] ?ws ?s =
       ?s\<lparr>results := results ?s @ [seg], cursor := cursor ?s + 1\<rparr>"
    "seg_text seg = [js ''ni hao'' ! cursor ?s]"
    by blast
  then have step: "cursor (loop_body (js ''ni hao'') cedict_ni_hao [] ?ws ?s) = 1"
    "map seg_text (results (loop_body (js ''ni hao'') cedict_ni_hao [] ?ws ?s)) = [js ''n'']"
    by (simp_all add: js_def)
  have a: "ccCedict ?st \<noteq> []"
    by (simp add: loaded_state_def cedict_ni_hao_def)
  have b: "scriptInput ?st = js ''ni hao''"
    by (simp add: loaded_state_def)
  from a b have ab: "ccCedict ?st \<noteq> [] \<and> scriptInput ?st = js ''ni hao''" by simp
  from latin_letters_pass_through
  have "ccCedict ?st \<noteq> [] \<and> scriptInput ?st = js ''ni hao'' \<longrightarrow>
         (\<exists>st'. processScript ?st = Some st' \<and>
            map seg_text (processedOutput st') = [js ''n'', js ''i'', js ''h'', js ''a'', js ''o''] \<and>
            map seg_type (processedOutput st') = [Found, Found, Found, Found, Found] \<and>
            length (processedOutput st') = 5 \<and>
            unknownWords st' = [])"
    by (elim conjE allE)
  with ab obtain st' where "processScript ?st = Some st'"
    "map seg_text (processedOutput st') = [js ''n'', js ''i'', js ''h'', js ''a'', js ''o'']"
    "map seg_type (processedOutput st') = [Found, Found, Found, Found, Found]"
    by auto
  then have run: "\<exists>st'. processScript ?st = Some st' \<and>
          map seg_text (processedOutput st') = [js ''n'', js ''i'', js ''h'', js ''a'', js ''o''] \<and>
          map seg_type (processedOutput st') = [Found, Found, Found, Found, Found]"
    by (intro exI[of _ st']) simp
  from l step a b run show ?thesis by simp
qed

text \<open>The claim as stated fails there: the output has five segments, not six.\<close>

theorem six_latin_segments_counterexample:
  "processScript (loaded_state (js ''ni hao'') cedict_ni_hao []) =
     Some ((loaded_state (js ''ni hao'') cedict_ni_hao [])
            \<lparr>processedOutput := map latin_segment (js ''nihao''), unknownWords := []\<rparr>)
   \<and> length (map latin_segment (js ''nihao'')) \<noteq> 6"
  by (simp add: eval_defs js_def latin_segment_def cedict_ni_hao_def)

section \<open>The unknown-word report (C6)\<close>

lemma set_dedup_first [simp]: "set (dedup_first xs) = set xs"
  by (induction xs rule: dedup_first.induct) auto

lemma distinct_dedup_first: "distinct (dedup_first xs)"
  by (induction xs rule: dedup_first.induct) auto

lemma dedup_first_snoc:
  "dedup_first (xs @ [w]) = (if w \<in> set xs then dedup_first xs else dedup_first xs @ [w])"
  by (induction xs rule: dedup_first.induct) auto

lemma set_add_dedup:
  "set_add (dedup_first xs) w = dedup_first (xs @ [w])"
  by (simp add: set_add_def dedup_first_snoc)

lemma unmatched_texts_append:
  "unmatched_texts (xs @ ys) = unmatched_texts xs @ unmatched_texts ys"
  by (simp add: unmatched_texts_def)

lemma collects_unmatched_init: "collects_unmatched \<lparr>cursor = 0, results = [], unknownSet = []\<rparr>"
  by (simp add: collects_unmatched_def unmatched_texts_def)

lemma collects_unmatched_step:
  assumes inv: "collects_unmatched s" and i: "cursor s < length t"
  shows "collects_unmatched (loop_body t d csv ws s)"
  using i
proof (cases rule: loop_body_cases[where d = d and csv = csv and ws = ws])
  case (segments word segs)
  have "unmatched_texts (map (\<lambda>segment. \<lparr>seg_text = segment, seg_type = Found,
                             seg_data = csv_data csv segment\<rparr>) segs) = []"
    by (simp add: unmatched_texts_def filter_map comp_def)
  with inv show ?thesis
    by (simp add: collects_unmatched_def segments(6) unmatched_texts_append)
next
  case (notfound word)
  have "unmatched_texts [\<lparr>seg_text = word, seg_type = NotFound, seg_data = dict_data d word\<rparr>]
          = [word]"
    by (simp add: unmatched_texts_def)
  with inv show ?thesis
    by (simp add: collects_unmatched_def notfound(6) unmatched_texts_append set_add_dedup)
qed (use inv in \<open>simp_all add: collects_unmatched_def unmatched_texts_def\<close>)

lemma processScript_unknownSet:
  assumes run: "processScript st = Some st'" and loaded: "ccCedict st \<noteq> []"
  shows "unknownWords st' =
           make_unknownWords (ccCedict st) (dedup_first (unmatched_texts (processedOutput st')))"
proof -
  let ?t = "scriptInput st" and ?ws = "sort_longest_first (keys (ccCedict st))"
  from run loaded obtain s' where s':
    "while_loop ?t (ccCedict st) (csvDictionary st) ?ws
       \<lparr>cursor = 0, results = [], unknownSet = []\<rparr> = Some s'"
    "st' = st\<lparr>processedOutput := results s',
             unknownWords := make_unknownWords (ccCedict st) (unknownSet s')\<rparr>"
    by (rule processScript_SomeE)
  have "collects_unmatched s' \<and> length ?t \<le> cursor s'"
    using s'(1) collects_unmatched_init
  proof (rule while_loop_invariant)
    fix s assume "collects_unmatched s" "cursor s < length ?t"
    then show "collects_unmatched (loop_body ?t (ccCedict st) (csvDictionary st) ?ws s)"
      by (rule collects_unmatched_step)
  qed
  with s'(2) show ?thesis by (simp add: collects_unmatched_def)
qed

lemma make_unknownWords_words: "map uw_word (make_unknownWords d ws) = ws"
  by (simp add: make_unknownWords_def enumerate_eq_zip comp_def case_prod_beta)

lemma make_unknownWords_ranks:
  "map uw_index (make_unknownWords d ws) = [1..<Suc (length ws)]"
proof -
  have "map uw_index (make_unknownWords d ws) =
          map (\<lambda>p. Suc (fst p)) (zip [0..<length ws] ws)"
    by (simp add: make_unknownWords_def enumerate_eq_zip case_prod_beta)
  also have "\<dots> = map Suc (map fst (zip [0..<length ws] ws))"
    by (simp only: map_map comp_def)
  also have "\<dots> = map Suc [0..<length ws]"
    by simp
  finally show ?thesis by (simp add: map_Suc_upt)
qed

lemma make_unknownWords_fields:
  assumes "r \<in> set (make_unknownWords d ws)"
  shows "uw_pinyin r = first_pinyin d (uw_word r)" "uw_meaning r = first_meaning d (uw_word r)"
  using assms by (auto simp: make_unknownWords_def)

lemma length_make_unknownWords: "length (make_unknownWords d ws) = length ws"
  by (simp add: make_unknownWords_def enumerate_eq_zip)


text \<open>
  C6. For a loaded dictionary with no empty key \<open>processScript\<close> returns, and the words of
  \<open>unknownWords\<close> are the texts of the \<open>not-found\<close> segments of the output, each kept at
  its first occurrence; they are pairwise distinct; the \<open>index\<close> fields are 1, 2, ..., N
  in that order; and \<open>pinyin\<close> and \<open>meaning\<close> of a record are those of the first CC-CEDICT
  entry of its word, the empty string when the word has no entry.
\<close>

theorem unknown_words_report:
  assumes "ccCedict st \<noteq> []"
    and "[] \<notin> set (keys (ccCedict st))" and "[] \<notin> set (keys (csvDictionary st))"
  shows "\<exists>st'. processScript st = Some st' \<and>
           map uw_word (unknownWords st') =
             dedup_first (map seg_text (filter (\<lambda>x. seg_type x = NotFound) (processedOutput st'))) \<and>
           distinct (map uw_word (unknownWords st')) \<and>
           map uw_index (unknownWords st') = [1..<Suc (length (unknownWords st'))] \<and>
           (\<forall>r\<in>set (unknownWords st').
              uw_pinyin r = (case map_of (ccCedict st) (uw_word r) of
                               Some (e # es) \<Rightarrow> pinyin e | _ \<Rightarrow> []) \<and>
              uw_meaning r = (case map_of (ccCedict st) (uw_word r) of
                               Some (e # es) \<Rightarrow> meaning e | _ \<Rightarrow> []))"
proof -
  from processScript_returns[OF assms(2,3)] obtain st' where run: "processScript st = Some st'"
    by blast
  let ?ws = "dedup_first (unmatched_texts (processedOutput st'))"
  note uw = processScript_unknownSet[OF run assms(1)]
  have words: "map uw_word (unknownWords st') = ?ws"
    unfolding uw by (rule make_unknownWords_words)
  then have "map uw_word (unknownWords st') =
             dedup_first (map seg_text (filter (\<lambda>x. seg_type x = NotFound) (processedOutput st')))"
    by (simp add: unmatched_texts_def)
  moreover from words have "distinct (map uw_word (unknownWords st'))"
    by (simp add: distinct_dedup_first)
  moreover have "map uw_index (unknownWords st') = [1..<Suc (length (unknownWords st'))]"
    unfolding uw by (simp add: make_unknownWords_ranks length_make_unknownWords)
  moreover have "\<forall>r\<in>set (unknownWords st').
              uw_pinyin r = (case map_of (ccCedict st) (uw_word r) of
                               Some (e # es) \<Rightarrow> pinyin e | _ \<Rightarrow> []) \<and>
              uw_meaning r = (case map_of (ccCedict st) (uw_word r) of
                               Some (e # es) \<Rightarrow> meaning e | _ \<Rightarrow> [])"
    unfolding uw using make_unknownWords_fields[of _ "ccCedict st" ?ws]
    by (simp add: first_pinyin_map_of first_meaning_map_of)
  ultimately show ?thesis using run by blast
qed


text \<open>
  The theorem on U+4F60 U+597D U+4F60 U+4F60 U+597D: three \<open>not-found\<close> segments, the first
  and the last alike, and two records.
\<close>

theorem unknown_words_report_witness:
  "ccCedict (loaded_state [ni, hao, ni, ni, hao] cedict_ni_hao []) \<noteq> []
   \<and> [] \<notin> set (keys (ccCedict (loaded_state [ni, hao, ni, ni, hao] cedict_ni_hao [])))
   \<and> [] \<notin> set (keys (csvDictionary (loaded_state [ni, hao, ni, ni, hao] cedict_ni_hao [])))
   \<and> (\<exists>st'. processScript (loaded_state [ni, hao, ni, ni, hao] cedict_ni_hao []) = Some st' \<and>
          map seg_text (processedOutput st') = [[ni, hao], [ni], [ni, hao]] \<and>
          map uw_word (unknownWords st') = [[ni, hao], [ni]] \<and>
          map uw_index (unknownWords st') = [1, 2])"
proof -
  let ?st = "loaded_state [ni, hao, ni, ni, hao] cedict_ni_hao []"
  have a: "ccCedict ?st \<noteq> []"
    by (simp add: loaded_state_def cedict_ni_hao_def)
  have b: "[] \<notin> set (keys (ccCedict ?st))"
    by (simp add: loaded_state_def cedict_ni_hao_def keys_def)
  have c: "[] \<notin> set (keys (csvDictionary ?st))"
    by (simp add: loaded_state_def keys_def)
  from unknown_words_report[OF a b c] obtain st' where st':
    "processScript ?st = Some st'"
    "map uw_word (unknownWords st') =
       dedup_first (map seg_text (filter (\<lambda>x. seg_type x = NotFound) (processedOutput st')))"
    "map uw_index (unknownWords st') = [1..<Suc (length (unknownWords st'))]"
    by blast
  have out: "processedOutput st' =
     [\<lparr>seg_text = [ni, hao], seg_type = NotFound,
       seg_data = DictEntries [dict_entry_of ''ni3 hao3'' ''hello'']\<rparr>,
      \<lparr>seg_text = [ni], seg_type = NotFound,
       seg_data = DictEntries [dict_entry_of ''ni3'' ''you'']\<rparr>,
      \<lparr>seg_text = [ni, hao], seg_type = NotFound,
       seg_data = DictEntries [dict_entry_of ''ni3 hao3'' ''hello'']\<rparr>]"
    using st'(1) by (auto simp: eval_defs cedict_ni_hao_def)
  have words: "map uw_word (unknownWords st') = [[ni, hao], [ni]]"
    unfolding st'(2) out by simp
  then have "length (unknownWords st') = 2"
    by (metis length_map length_Cons list.size(3) numeral_2_eq_2)
  with st'(3) have "map uw_index (unknownWords st') = [1, 2]"
    by (simp add: upt_rec)
  with st'(1) out words a b c show ?thesis by auto
qed

section \<open>The data of \<open>found\<close> segments (C8)\<close>

lemma found_data_ok_csv:
  "has_key csv w \<Longrightarrow>
   found_data_ok csv \<lparr>seg_text = w, seg_type = Found, seg_data = csv_data csv w\<rparr>"
  by (auto simp: found_data_ok_def has_key_def csv_data_def get_property_def
      split: option.splits if_splits)

lemma found_data_ok_step:
  assumes inv: "\<forall>seg\<in>set (results s). found_data_ok csv seg" and i: "cursor s < length t"
  shows "\<forall>seg\<in>set (results (loop_body t d csv ws s)). found_data_ok csv seg"
  using i
proof (cases rule: loop_body_cases[where d = d and csv = csv and ws = ws])
  case newline
  with inv show ?thesis by (simp add: found_data_ok_def)
next
  case latin
  with inv show ?thesis by (auto simp: found_data_ok_def latin_segment_def)
next
  case (segments word segs)
  have "found_data_ok csv \<lparr>seg_text = x, seg_type = Found, seg_data = csv_data csv x\<rparr>"
    if "x \<in> set segs" for x
    using GetSegmentsInCsv_keys[OF segments(5) that] by (rule found_data_ok_csv)
  with inv show ?thesis by (auto simp: segments(6))
next
  case (notfound word)
  with inv show ?thesis by (simp add: found_data_ok_def)
next
  case (csvdirect word)
  from find_in_set[OF csvdirect(5)] have "has_key csv word" by (simp add: has_key_iff)
  then have "found_data_ok csv \<lparr>seg_text = word, seg_type = Found, seg_data = csv_data csv word\<rparr>"
    by (rule found_data_ok_csv)
  with inv show ?thesis by (simp add: csvdirect(6))
qed (use inv in simp_all)

lemma found_segments_data:
  assumes run: "processScript st = Some st'" and loaded: "ccCedict st \<noteq> []"
    and seg: "seg \<in> set (processedOutput st')" "seg_type seg = Found"
  shows "(\<exists>c. is_latin c \<and> seg = latin_segment c) \<or>
         (\<exists>es. map_of (csvDictionary st) (seg_text seg) = Some es \<and> seg_data seg = CsvEntries es) \<or>
         (map_of (csvDictionary st) (seg_text seg) = None \<and>
          seg_text seg \<in> set object_prototype_names \<and>
          seg_data seg = PrototypeMember (seg_text seg))"
proof -
  let ?t = "scriptInput st" and ?ws = "sort_longest_first (keys (ccCedict st))"
  let ?I = "\<lambda>s :: loop_state. \<forall>seg\<in>set (results s). found_data_ok (csvDictionary st) seg"
  from run loaded obtain s' where s':
    "while_loop ?t (ccCedict st) (csvDictionary st) ?ws
       \<lparr>cursor = 0, results = [], unknownSet = []\<rparr> = Some s'"
    "st' = st\<lparr>processedOutput := results s',
             unknownWords := make_unknownWords (ccCedict st) (unknownSet s')\<rparr>"
    by (rule processScript_SomeE)
  have "?I s' \<and> length ?t \<le> cursor s'"
    using s'(1)
  proof (rule while_loop_invariant)
    show "?I \<lparr>cursor = 0, results = [], unknownSet = []\<rparr>" by simp
  next
    fix s :: loop_state
    assume "?I s" "cursor s < length ?t"
    then show "?I (loop_body ?t (ccCedict st) (csvDictionary st) ?ws s)"
      by (rule found_data_ok_step)
  qed
  with s'(2) seg show ?thesis by (auto simp: found_data_ok_def)
qed

text \<open>
  C8. The claim, and the declared type of \<open>ProcessedSegment.data\<close>, want every \<open>found\<close>
  segment to carry a non-empty array of entries. A segment whose text is a key of the CSV
  dictionary does carry the array stored there (\<open>found_segments_data\<close>). The Latin branch
  stores the bare object \<open>{pinyin: c}\<close>: on the text \<open>a\<close> the output is one \<open>found\<close>
  segment whose data is no array and has no length.
\<close>

theorem latin_segment_data_is_no_list:
  "processScript (loaded_state (js ''a'') cedict_ni_hao csv_ni_hao) =
     Some ((loaded_state (js ''a'') cedict_ni_hao csv_ni_hao)
            \<lparr>processedOutput := [latin_segment 0x61], unknownWords := []\<rparr>)
   \<and> seg_type (latin_segment 0x61) = Found
   \<and> seg_data (latin_segment 0x61) = PinyinObject (js ''a'')
   \<and> data_length (seg_data (latin_segment 0x61)) = None"
  by (simp add: eval_defs js_def latin_segment_def data_length_def cedict_ni_hao_def)

section \<open>Newlines (C9)\<close>

lemma take_past_char: "i < length t \<Longrightarrow> take (Suc i) t = take i t @ [t ! i]"
  by (rule take_Suc_conv_app_nth)

lemma take_past_word:
  "startsWith t w i \<Longrightarrow> take (i + length w) t = take i t @ w"
  by (simp add: take_add startsWith_def)

lemma newlines_marked_init: "newlines_marked t \<lparr>cursor = 0, results = [], unknownSet = []\<rparr>"
  by (simp add: newlines_marked_def)

lemma no_newline_filter: "0x0A \<notin> set w \<Longrightarrow> filter (\<lambda>c. c = 0x0A) w = []"
  by (induction w) auto

lemma newlines_marked_step:
  assumes inv: "newlines_marked t s" and i: "cursor s < length t"
    and keys: "\<forall>w\<in>set ws \<union> set (keys csv). 0x0A \<notin> set w"
  shows "newlines_marked t (loop_body t d csv ws s)"
  using i
proof (cases rule: loop_body_cases[where d = d and csv = csv and ws = ws])
  case newline
  with inv i show ?thesis
    by (simp add: newlines_marked_def take_past_char newline_segment_def replicate_append_same)
next
  case latin
  with inv i show ?thesis
    by (simp add: newlines_marked_def take_past_char)
next
  case blank
  with inv i show ?thesis
    by (simp add: newlines_marked_def take_past_char)
next
  case (segments word segs)
  from find_first_match[OF segments(4)] have sw: "startsWith t word (cursor s)" by blast
  from find_in_set[OF segments(4)] keys have "0x0A \<notin> set word" by blast
  then have "filter (\<lambda>c. c = 0x0A) word = []" by (rule no_newline_filter)
  with inv show ?thesis
    by (simp add: newlines_marked_def segments(6) take_past_word[OF sw] filter_map comp_def)
next
  case (notfound word)
  from find_first_match[OF notfound(4)] have sw: "startsWith t word (cursor s)" by blast
  from find_in_set[OF notfound(4)] keys have "0x0A \<notin> set word" by blast
  then have "filter (\<lambda>c. c = 0x0A) word = []" by (rule no_newline_filter)
  with inv show ?thesis
    by (simp add: newlines_marked_def notfound(6) take_past_word[OF sw])
next
  case (csvdirect word)
  from find_first_match[OF csvdirect(5)] have sw: "startsWith t word (cursor s)" by blast
  from find_in_set[OF csvdirect(5)] keys have "0x0A \<notin> set word" by blast
  then have "filter (\<lambda>c. c = 0x0A) word = []" by (rule no_newline_filter)
  with inv show ?thesis
    by (simp add: newlines_marked_def csvdirect(6) take_past_word[OF sw])
next
  case skip
  with inv i show ?thesis
    by (simp add: newlines_marked_def take_past_char)
qed

lemma processScript_newlines:
  assumes run: "processScript st = Some st'" and loaded: "ccCedict st \<noteq> []"
    and keys: "\<forall>w\<in>set (keys (ccCedict st)) \<union> set (keys (csvDictionary st)). 0x0A \<notin> set w"
  shows "filter (\<lambda>x. seg_type x = Unknown) (processedOutput st') =
         replicate (length (filter (\<lambda>c. c = 0x0A) (scriptInput st))) newline_segment"
proof -
  let ?t = "scriptInput st" and ?ws = "sort_longest_first (keys (ccCedict st))"
  from run loaded obtain s' where s':
    "while_loop ?t (ccCedict st) (csvDictionary st) ?ws
       \<lparr>cursor = 0, results = [], unknownSet = []\<rparr> = Some s'"
    "st' = st\<lparr>processedOutput := results s',
             unknownWords := make_unknownWords (ccCedict st) (unknownSet s')\<rparr>"
    by (rule processScript_SomeE)
  from keys have keys': "\<forall>w\<in>set ?ws \<union> set (keys (csvDictionary st)). 0x0A \<notin> set w"
    by simp
  have "newlines_marked ?t s' \<and> length ?t \<le> cursor s'"
    using s'(1) newlines_marked_init
  proof (rule while_loop_invariant)
    fix s assume "newlines_marked ?t s" "cursor s < length ?t"
    then show "newlines_marked ?t (loop_body ?t (ccCedict st) (csvDictionary st) ?ws s)"
      using keys' by (rule newlines_marked_step)
  qed
  with s'(2) show ?thesis by (simp add: newlines_marked_def)
qed

lemma newline_step:
  assumes "cursor s < length t" "t ! cursor s = 0x0A"
  shows "loop_body t d csv ws s =
           s\<lparr>results := results s @ [newline_segment], cursor := cursor s + 1\<rparr>"
  using assms by (simp add: loop_body_def Let_def is_newline_def newline_segment_def)

text \<open>
  C9, as amended. The claim speaks of every newline of the input. The loop tests for a
  newline only at the cursor, and a matched key is taken whole, so a newline inside a key
  gets no segment of its own. What holds: when the character at the cursor is a newline,
  the loop pushes the \<open>unknown\<close> segment whose text is exactly the newline and moves on by
  one; and whenever no key of either dictionary contains a newline (and none is empty),
  the \<open>unknown\<close> segments of the output are one newline segment for each newline of the
  input. On U+4F60, newline, U+597D with the two characters as entries, the output is the
  segment of the first, the newline segment, the segment of the second.
\<close>

theorem newline_gives_unknown_segment:
  "(\<forall>t d csv ws. \<forall>s :: loop_state. cursor s < length t \<and> t ! cursor s = 0x0A \<longrightarrow>
       loop_body t d csv ws s =
         s\<lparr>results := results s @
              [\<lparr>seg_text = [0x0A], seg_type = Unknown, seg_data = Undefined\<rparr>],
           cursor := cursor s + 1\<rparr>)
   \<and> (\<forall>st. ccCedict st \<noteq> [] \<and>
         [] \<notin> set (keys (ccCedict st)) \<and> [] \<notin> set (keys (csvDictionary st)) \<and>
         (\<forall>w\<in>set (keys (ccCedict st)) \<union> set (keys (csvDictionary st)). 0x0A \<notin> set w) \<longrightarrow>
         (\<exists>st'. processScript st = Some st' \<and>
            filter (\<lambda>x. seg_type x = Unknown) (processedOutput st') =
            replicate (length (filter (\<lambda>c. c = 0x0A) (scriptInput st))) newline_segment))
   \<and> (\<forall>st e1 e2. scriptInput st = [ni, 0x0A, hao] \<and> ccCedict st = [([ni], e1), ([hao], e2)] \<and>
         csvDictionary st = [] \<longrightarrow>
         processScript st =
           Some (st\<lparr>processedOutput :=
                      [\<lparr>seg_text = [ni], seg_type = NotFound, seg_data = DictEntries e1\<rparr>,
                       newline_segment,
                       \<lparr>seg_text = [hao], seg_type = NotFound, seg_data = DictEntries e2\<rparr>],
                    unknownWords := make_unknownWords (ccCedict st) [[ni], [hao]]\<rparr>))
   \<and> (\<forall>st e1 e2 c1 c2. scriptInput st = [ni, 0x0A, hao] \<and>
         ccCedict st = [([ni], e1), ([hao], e2)] \<and>
         csvDictionary st = [([ni], c1), ([hao], c2)] \<longrightarrow>
         processScript st =
           Some (st\<lparr>processedOutput :=
                      [\<lparr>seg_text = [ni], seg_type = Found, seg_data = CsvEntries c1\<rparr>,
                       newline_segment,
                       \<lparr>seg_text = [hao], seg_type = Found, seg_data = CsvEntries c2\<rparr>],
                    unknownWords := []\<rparr>))"
proof -
  have step: "loop_body t d csv ws s =
         s\<lparr>results := results s @
              [\<lparr>seg_text = [0x0A], seg_type = Unknown, seg_data = Undefined\<rparr>],
           cursor := cursor s + 1\<rparr>"
    if "cursor s < length t \<and> t ! cursor s = 0x0A" for t d csv ws and s :: loop_state
    using that newline_step[of s t d csv ws] by (simp add: newline_segment_def)
  have count: "\<exists>st'. processScript st = Some st' \<and>
            filter (\<lambda>x. seg_type x = Unknown) (processedOutput st') =
            replicate (length (filter (\<lambda>c. c = 0x0A) (scriptInput st))) newline_segment"
    if h: "ccCedict st \<noteq> [] \<and>
         [] \<notin> set (keys (ccCedict st)) \<and> [] \<notin> set (keys (csvDictionary st)) \<and>
         (\<forall>w\<in>set (keys (ccCedict st)) \<union> set (keys (csvDictionary st)). 0x0A \<notin> set w)" for st
  proof -
    from h processScript_returns[of st] obtain st' where run: "processScript st = Some st'"
      by blast
    from h have "ccCedict st \<noteq> []"
      "\<forall>w\<in>set (keys (ccCedict st)) \<union> set (keys (csvDictionary st)). 0x0A \<notin> set w"
      by simp_all
    from processScript_newlines[OF run this] run show ?thesis by blast
  qed
  have ex1: "processScript st =
           Some (st\<lparr>processedOutput :=
                      [\<lparr>seg_text = [ni], seg_type = NotFound, seg_data = DictEntries e1\<rparr>,
                       newline_segment,
                       \<lparr>seg_text = [hao], seg_type = NotFound, seg_data = DictEntries e2\<rparr>],
                    unknownWords := make_unknownWords (ccCedict st) [[ni], [hao]]\<rparr>)"
    if "scriptInput st = [ni, 0x0A, hao] \<and> ccCedict st = [([ni], e1), ([hao], e2)] \<and>
         csvDictionary st = []" for st e1 e2
    using that by (simp add: eval_defs newline_segment_def)
  have ex2: "processScript st =
           Some (st\<lparr>processedOutput :=
                      [\<lparr>seg_text = [ni], seg_type = Found, seg_data = CsvEntries c1\<rparr>,
                       newline_segment,
                       \<lparr>seg_text = [hao], seg_type = Found, seg_data = CsvEntries c2\<rparr>],
                    unknownWords := []\<rparr>)"
    if "scriptInput st = [ni, 0x0A, hao] \<and>
         ccCedict st = [([ni], e1), ([hao], e2)] \<and>
         csvDictionary st = [([ni], c1), ([hao], c2)]" for st e1 e2 c1 c2
    using that by (simp add: eval_defs newline_segment_def)
  from step count ex1 ex2 show ?thesis by blast
qed


text \<open>The theorem on that text with the example dictionaries.\<close>

theorem newline_gives_unknown_segment_witness:
  "1 < length [ni, 0x0A, hao] \<and> [ni, 0x0A, hao] ! 1 = 0x0A
   \<and> loop_body [ni, 0x0A, hao] cedict_ni_hao csv_ni_hao (sort_longest_first (keys cedict_ni_hao))
        \<lparr>cursor = 1, results = [], unknownSet = []\<rparr> =
       \<lparr>cursor = 2, results = [newline_segment], unknownSet = []\<rparr>
   \<and> ccCedict (loaded_state [ni, 0x0A, hao] cedict_ni_hao csv_ni_hao) \<noteq> []
   \<and> [] \<notin> set (keys (ccCedict (loaded_state [ni, 0x0A, hao] cedict_ni_hao csv_ni_hao)))
   \<and> [] \<notin> set (keys (csvDictionary (loaded_state [ni, 0x0A, hao] cedict_ni_hao csv_ni_hao)))
   \<and> 0x0A \<notin> set (concat (keys cedict_ni_hao @ keys csv_ni_hao))
   \<and> (\<exists>st'. processScript (loaded_state [ni, 0x0A, hao] cedict_ni_hao csv_ni_hao) = Some st' \<and>
            filter (\<lambda>x. seg_type x = Unknown) (processedOutput st') = [newline_segment])
   \<and> processScript
        (loaded_state [ni, 0x0A, hao]
           [([ni], [dict_entry_of ''ni3'' ''you'']), ([hao], [dict_entry_of ''hao3'' ''good''])] []) =
       Some ((loaded_state [ni, 0x0A, hao]
           [([ni], [dict_entry_of ''ni3'' ''you'']), ([hao], [dict_entry_of ''hao3'' ''good''])] [])
              \<lparr>processedOutput :=
                 [\<lparr>seg_text = [ni], seg_type = NotFound,
                   seg_data = DictEntries [dict_entry_of ''ni3'' ''you'']\<rparr>,
                  newline_segment,
                  \<lparr>seg_text = [hao], seg_type = NotFound,
                   seg_data = DictEntries [dict_entry_of ''hao3'' ''good'']\<rparr>],
               unknownWords :=
                 [\<lparr>uw_index = 1, uw_word = [ni], uw_pinyin = js ''ni3'', uw_meaning = js ''you''\<rparr>,
                  \<lparr>uw_index = 2, uw_word = [hao], uw_pinyin = js ''hao3'',
                   uw_meaning = js ''good''\<rparr>]\<rparr>)
   \<and> processScript
        (loaded_state [ni, 0x0A, hao]
           [([ni], [dict_entry_of ''ni3'' ''you'']), ([hao], [dict_entry_of ''hao3'' ''good''])]
           [([ni], [csv_entry_of ''1'' ''ni3'' ''pronoun'' ''you'']),
            ([hao], [csv_entry_of ''1'' ''hao3'' ''adjective'' ''good''])]) =
       Some ((loaded_state [ni, 0x0A, hao]
           [([ni], [dict_entry_of ''ni3'' ''you'']), ([hao], [dict_entry_of ''hao3'' ''good''])]
           [([ni], [csv_entry_of ''1'' ''ni3'' ''pronoun'' ''you'']),
            ([hao], [csv_entry_of ''1'' ''hao3'' ''adjective'' ''good''])])
              \<lparr>processedOutput :=
                 [\<lparr>seg_text = [ni], seg_type = Found,
                   seg_data = CsvEntries [csv_entry_of ''1'' ''ni3'' ''pronoun'' ''you'']\<rparr>,
                  newline_segment,
                  \<lparr>seg_text = [hao], seg_type = Found,
                   seg_data = CsvEntries [csv_entry_of ''1'' ''hao3'' ''adjective'' ''good'']\<rparr>],
               unknownWords := []\<rparr>)"
proof -
  let ?t = "[ni, 0x0A, hao]"
  let ?st = "loaded_state ?t cedict_ni_hao csv_ni_hao"
  let ?s = "\<lparr>cursor = 1, results = [], unknownSet = []\<rparr>"
  let ?ws = "sort_longest_first (keys cedict_ni_hao)"
  let ?d = "[([ni], [dict_entry_of ''ni3'' ''you'']), ([hao], [dict_entry_of ''hao3'' ''good''])]"
  let ?c = "[([ni], [csv_entry_of ''1'' ''ni3'' ''pronoun'' ''you'']),
            ([hao], [csv_entry_of ''1'' ''hao3'' ''adjective'' ''good''])]"
  have p: "cursor ?s < length ?t \<and> ?t ! cursor ?s = 0x0A" by simp
  with newline_gives_unknown_segment
  have "loop_body ?t cedict_ni_hao csv_ni_hao ?ws ?s =
         ?s\<lparr>results := results ?s @
              [\<lparr>seg_text = [0x0A], seg_type = Unknown, seg_data = Undefined\<rparr>],
           cursor := cursor ?s + 1\<rparr>"
    by blast
  then have step: "loop_body ?t cedict_ni_hao csv_ni_hao ?ws ?s =
       \<lparr>cursor = 2, results = [newline_segment], unknownSet = []\<rparr>"
    by (simp add: newline_segment_def)
  have a: "ccCedict ?st \<noteq> [] \<and>
         [] \<notin> set (keys (ccCedict ?st)) \<and> [] \<notin> set (keys (csvDictionary ?st))"
    by (simp add: loaded_state_def cedict_ni_hao_def csv_ni_hao_def keys_def)
  have n: "0x0A \<notin> set (concat (keys cedict_ni_hao @ keys csv_ni_hao))"
    by (simp add: cedict_ni_hao_def csv_ni_hao_def keys_def)
  then have k: "\<forall>w\<in>set (keys (ccCedict ?st)) \<union> set (keys (csvDictionary ?st)). 0x0A \<notin> set w"
    by (auto simp: loaded_state_def)
  have t: "replicate (length (filter (\<lambda>c. c = 0x0A) (scriptInput ?st))) newline_segment =
           [newline_segment]"
    by (simp add: loaded_state_def)
  from newline_gives_unknown_segment a k
  have "\<exists>st'. processScript ?st = Some st' \<and>
            filter (\<lambda>x. seg_type x = Unknown) (processedOutput st') =
            replicate (length (filter (\<lambda>c. c = 0x0A) (scriptInput ?st))) newline_segment"
    by blast
  with t have count: "\<exists>st'. processScript ?st = Some st' \<and>
            filter (\<lambda>x. seg_type x = Unknown) (processedOutput st') = [newline_segment]"
    by simp
  have h1: "scriptInput (loaded_state ?t ?d []) = ?t \<and> ccCedict (loaded_state ?t ?d []) = ?d \<and>
            csvDictionary (loaded_state ?t ?d []) = []"
    by (simp add: loaded_state_def)
  with newline_gives_unknown_segment
  have "processScript (loaded_state ?t ?d []) =
           Some ((loaded_state ?t ?d [])\<lparr>processedOutput :=
                      [\<lparr>seg_text = [ni], seg_type = NotFound,
                        seg_data = DictEntries [dict_entry_of ''ni3'' ''you'']\<rparr>,
                       newline_segment,
                       \<lparr>seg_text = [hao], seg_type = NotFound,
                        seg_data = DictEntries [dict_entry_of ''hao3'' ''good'']\<rparr>],
                    unknownWords :=
                      make_unknownWords (ccCedict (loaded_state ?t ?d [])) [[ni], [hao]]\<rparr>)"
    by blast
  moreover have "make_unknownWords (ccCedict (loaded_state ?t ?d [])) [[ni], [hao]] =
       [\<lparr>uw_index = 1, uw_word = [ni], uw_pinyin = js ''ni3'', uw_meaning = js ''you''\<rparr>,
        \<lparr>uw_index = 2, uw_word = [hao], uw_pinyin = js ''hao3'', uw_meaning = js ''good''\<rparr>]"
    by (simp add: loaded_state_def make_unknownWords_def enumerate_eq_zip first_pinyin_map_of
        first_meaning_map_of dict_entry_of_def)
  ultimately have ex1: "processScript (loaded_state ?t ?d []) =
           Some ((loaded_state ?t ?d [])\<lparr>processedOutput :=
                      [\<lparr>seg_text = [ni], seg_type = NotFound,
                        seg_data = DictEntries [dict_entry_of ''ni3'' ''you'']\<rparr>,
                       newline_segment,
                       \<lparr>seg_text = [hao], seg_type = NotFound,
                        seg_data = DictEntries [dict_entry_of ''hao3'' ''good'']\<rparr>],
                    unknownWords :=
       [\<lparr>uw_index = 1, uw_word = [ni], uw_pinyin = js ''ni3'', uw_meaning = js ''you''\<rparr>,
        \<lparr>uw_index = 2, uw_word = [hao], uw_pinyin = js ''hao3'', uw_meaning = js ''good''\<rparr>]\<rparr>)"
    by simp
  have h2: "scriptInput (loaded_state ?t ?d ?c) = ?t \<and> ccCedict (loaded_state ?t ?d ?c) = ?d \<and>
            csvDictionary (loaded_state ?t ?d ?c) = ?c"
    by (simp add: loaded_state_def)
  with newline_gives_unknown_segment
  have ex2: "processScript (loaded_state ?t ?d ?c) =
           Some ((loaded_state ?t ?d ?c)\<lparr>processedOutput :=
                      [\<lparr>seg_text = [ni], seg_type = Found,
                        seg_data = CsvEntries [csv_entry_of ''1'' ''ni3'' ''pronoun'' ''you'']\<rparr>,
                       newline_segment,
                       \<lparr>seg_text = [hao], seg_type = Found,
                        seg_data = CsvEntries [csv_entry_of ''1'' ''hao3'' ''adjective'' ''good'']\<rparr>],
                    unknownWords := []\<rparr>)"
    by blast
  from p step a n count ex1 ex2 show ?thesis by simp
qed

text \<open>
  The claim as stated fails when a key contains a newline. With the Lexicon key U+4F60,
  newline, the text U+4F60, newline, U+597D, newline has two newlines and the output one
  \<open>unknown\<close> segment: the first newline is part of the first \<open>not-found\<close> segment.
\<close>

theorem newline_inside_key_counterexample:
  "processScript (loaded_state [ni, 0x0A, hao, 0x0A] cedict_ni_newline []) =
     Some ((loaded_state [ni, 0x0A, hao, 0x0A] cedict_ni_newline [])
            \<lparr>processedOutput :=
               [\<lparr>seg_text = [ni, 0x0A], seg_type = NotFound,
                 seg_data = DictEntries [dict_entry_of ''ni3'' ''you'']\<rparr>,
                \<lparr>seg_text = [hao], seg_type = NotFound,
                 seg_data = DictEntries [dict_entry_of ''hao3'' ''good'']\<rparr>,
                newline_segment],
             unknownWords :=
               [\<lparr>uw_index = 1, uw_word = [ni, 0x0A], uw_pinyin = js ''ni3'',
                 uw_meaning = js ''you''\<rparr>,
                \<lparr>uw_index = 2, uw_word = [hao], uw_pinyin = js ''hao3'',
                 uw_meaning = js ''good''\<rparr>]\<rparr>)
   \<and> count_list [ni, 0x0A, hao, 0x0A] 0x0A = 2
   \<and> count_list
        (map seg_type
           [\<lparr>seg_text = [ni, 0x0A], seg_type = NotFound,
             seg_data = DictEntries [dict_entry_of ''ni3'' ''you'']\<rparr>,
            \<lparr>seg_text = [hao], seg_type = NotFound,
             seg_data = DictEntries [dict_entry_of ''hao3'' ''good'']\<rparr>,
            newline_segment]) Unknown = 1"
  by (simp add: eval_defs cedict_ni_newline_def dict_entry_of_def newline_segment_def)

section \<open>Termination (C10)\<close>

text \<open>
  C10. When no key of either dictionary is the empty string, every iteration of the loop
  moves \<open>i\<close> forward by at least one, so the loop ends and \<open>processScript\<close> returns,
  whatever the text.
\<close>

theorem segmentation_terminates:
  assumes "[] \<notin> set (keys (ccCedict st))" and "[] \<notin> set (keys (csvDictionary st))"
  shows "(\<forall>s. cursor s < length (scriptInput st) \<longrightarrow>
              cursor s + 1 \<le> cursor (loop_body (scriptInput st) (ccCedict st) (csvDictionary st)
                                        (sort_longest_first (keys (ccCedict st))) s))
         \<and> (\<forall>s. \<exists>s'. while_loop (scriptInput st) (ccCedict st) (csvDictionary st)
                         (sort_longest_first (keys (ccCedict st))) s = Some s')
         \<and> (\<exists>st'. processScript st = Some st')"
proof (intro conjI allI impI)
  let ?ws = "sort_longest_first (keys (ccCedict st))"
  from assms(1) have ws: "[] \<notin> set ?ws" by simp
  fix s
  show "cursor s + 1 \<le> cursor (loop_body (scriptInput st) (ccCedict st) (csvDictionary st) ?ws s)"
    if "cursor s < length (scriptInput st)"
    using loop_body_advances[OF that ws assms(2), of "ccCedict st"] by simp
  show "\<exists>s'. while_loop (scriptInput st) (ccCedict st) (csvDictionary st) ?ws s = Some s'"
    using ws assms(2) by (intro while_loop_terminates loop_body_advances)
  show "\<exists>st'. processScript st = Some st'"
    using assms by (rule processScript_returns)
qed

theorem segmentation_terminates_witness:
  "[] \<notin> set (keys (ccCedict (loaded_state [ni, hao, ma] cedict_ni_hao_ma csv_nihao_ma)))
   \<and> [] \<notin> set (keys (csvDictionary (loaded_state [ni, hao, ma] cedict_ni_hao_ma csv_nihao_ma)))
   \<and> 0 < length [ni, hao, ma]
   \<and> 1 \<le> cursor (loop_body [ni, hao, ma] cedict_ni_hao_ma csv_nihao_ma
                      (sort_longest_first (keys cedict_ni_hao_ma))
                      \<lparr>cursor = 0, results = [], unknownSet = []\<rparr>)
   \<and> (\<exists>st'. processScript (loaded_state [ni, hao, ma] cedict_ni_hao_ma csv_nihao_ma) = Some st')"
proof -
  let ?st = "loaded_state [ni, hao, ma] cedict_ni_hao_ma csv_nihao_ma"
  let ?s = "\<lparr>cursor = 0, results = [], unknownSet = []\<rparr>"
  have k: "[] \<notin> set (keys (ccCedict ?st))"
    by (simp add: loaded_state_def cedict_ni_hao_ma_def keys_def)
  have c: "[] \<notin> set (keys (csvDictionary ?st))"
    by (simp add: loaded_state_def csv_nihao_ma_def keys_def)
  note all = segmentation_terminates[OF k c]
  have i: "cursor ?s < length (scriptInput ?st)"
    by (simp add: loaded_state_def)
  with all have "cursor ?s + 1 \<le> cursor (loop_body (scriptInput ?st) (ccCedict ?st)
            (csvDictionary ?st) (sort_longest_first (keys (ccCedict ?st))) ?s)"
    by blast
  then have step: "1 \<le> cursor (loop_body [ni, hao, ma] cedict_ni_hao_ma csv_nihao_ma
                      (sort_longest_first (keys cedict_ni_hao_ma)) ?s)"
    by (simp add: loaded_state_def)
  from all have "\<exists>st'. processScript ?st = Some st'" by blast
  with k c step show ?thesis by simp
qed

text \<open>
  The hypothesis on the keys is needed. An empty key is a prefix everywhere; once it is
  the match, the cursor stays where it is, the next iteration finds the same match, and
  the loop never returns.
\<close>

lemma stuck_step:
  assumes "stuck t ws s"
  shows "stuck t ws (loop_body t d csv ws s)"
proof -
  from assms have i: "cursor s < length t" and c: "t ! cursor s \<noteq> 0x0A"
    "\<not> is_latin (t ! cursor s)" "\<not> trims_to_empty (t ! cursor s)"
    and w: "find (\<lambda>w. startsWith t w (cursor s)) ws = Some []"
    by (simp_all add: stuck_def)
  from lexicon_step_effect(1)[OF i c w, of d csv]
  have "cursor (loop_body t d csv ws s) = cursor s" by simp
  with assms show ?thesis by (simp add: stuck_def)
qed

lemma stuck_never_returns:
  assumes "stuck t ws s"
  shows "while_loop t d csv ws s = None"
proof -
  have "\<not> stuck t ws s" if run: "while_loop t d csv ws s = Some s'" for s'
  proof (induction t d csv ws s s' rule: while_loop.raw_induct)
    case (1 loop t d csv ws s s')
    show ?case
    proof
      assume st: "stuck t ws s"
      then have "cursor s < length t" by (simp add: stuck_def)
      with 1(2) have "loop t d csv ws (loop_body t d csv ws s) = Some s'" by simp
      from 1(1)[OF this] stuck_step[OF st] show False by blast
    qed
  qed (fact run)
  with assms show ?thesis by (cases "while_loop t d csv ws s") auto
qed

lemma empty_key_never_returns:
  "processScript (loaded_state [ni] [([], es)] csv) = None"
proof -
  have "stuck [ni] (sort_longest_first (keys [([], es)])) \<lparr>cursor = 0, results = [], unknownSet = []\<rparr>"
    by (simp add: stuck_def keys_def sort_longest_first_def is_latin_def trims_to_empty_def
        startsWith_def)
  from stuck_never_returns[OF this] show ?thesis
    by (simp add: processScript_def loaded_state_def Let_def keys_def)
qed

end
